theory Spec2Isabelle
  imports Main "HOL-Library.Word"
begin

section \<open>JavaScript strings and values\<close>

text \<open>
  A JavaScript string is a sequence of UTF-16 code units. \<open>length\<close>, \<open>trim\<close>,
  \<open>replace\<close> and the regular expressions of \<^verbatim>\<open>server.js\<close> (none has the \<^verbatim>\<open>u\<close> flag) all
  work on code units, so the model does too. \<open>js\<close> writes an ASCII literal.
\<close>

type_synonym code_unit = "16 word"
type_synonym jsstring = "code_unit list"

definition js :: "string \<Rightarrow> jsstring" where
  "js s = map (\<lambda>c. of_nat (of_char c)) s"

text \<open>
  The values a JSON response field can hold. \<open>JObject\<close> stands for any array or object
  (always truthy, and without a \<^verbatim>\<open>trim\<close> method).
\<close>

datatype jsval = JUndefined | JNull | JBool bool | JNum int | JStr jsstring | JObject

fun truthy :: "jsval \<Rightarrow> bool" where
  "truthy JUndefined = False"
| "truthy JNull = False"
| "truthy (JBool b) = b"
| "truthy (JNum n) = (n \<noteq> 0)"
| "truthy (JStr s) = (s \<noteq> [])"
| "truthy JObject = True"

datatype js_error = Error string | TypeError string

fun message :: "js_error \<Rightarrow> string" where
  "message (Error m) = m"
| "message (TypeError m) = m"

subsection \<open>\<^verbatim>\<open>String.prototype.trim\<close>\<close>

text \<open>ECMAScript WhiteSpace and LineTerminator code points (all in the basic plane).\<close>

definition isWhiteSpace :: "code_unit \<Rightarrow> bool" where
  "isWhiteSpace c \<longleftrightarrow>
     c = 0x09 \<or> c = 0x0A \<or> c = 0x0B \<or> c = 0x0C \<or> c = 0x0D \<or> c = 0x20 \<or> c = 0xA0 \<or>
     c = 0x1680 \<or> (0x2000 \<le> c \<and> c \<le> 0x200A) \<or> c = 0x2028 \<or> c = 0x2029 \<or>
     c = 0x202F \<or> c = 0x205F \<or> c = 0x3000 \<or> c = 0xFEFF"

definition trim :: "jsstring \<Rightarrow> jsstring" where
  "trim s = rev (dropWhile isWhiteSpace (rev (dropWhile isWhiteSpace s)))"

text \<open>The whitespace \<open>trim\<close> removes at the two ends.\<close>

definition leadingSpace :: "jsstring \<Rightarrow> jsstring" where
  "leadingSpace s = takeWhile isWhiteSpace s"

definition trailingSpace :: "jsstring \<Rightarrow> jsstring" where
  "trailingSpace s = rev (takeWhile isWhiteSpace (rev (dropWhile isWhiteSpace s)))"

subsection \<open>\<^verbatim>\<open>isOnlyNumbers\<close>\<close>

text \<open>
  \<^verbatim>\<open>return /^\d+$/.test(str.replace(/[.,]/g, ''));\<close>
  The global regular expression deletes every \<^verbatim>\<open>.\<close> (0x2E) and \<^verbatim>\<open>,\<close> (0x2C); the test
  accepts a non-empty run of the digits 0-9.
\<close>

definition isDigit :: "code_unit \<Rightarrow> bool" where
  "isDigit c \<longleftrightarrow> 0x30 \<le> c \<and> c \<le> 0x39"

definition removeDotsAndCommas :: "jsstring \<Rightarrow> jsstring" where
  "removeDotsAndCommas str = filter (\<lambda>c. c \<noteq> 0x2E \<and> c \<noteq> 0x2C) str"

definition testDigitsOnly :: "jsstring \<Rightarrow> bool" where
  "testDigitsOnly s \<longleftrightarrow> s \<noteq> [] \<and> list_all isDigit s"

definition isOnlyNumbers :: "jsstring \<Rightarrow> bool" where
  "isOnlyNumbers str = testDigitsOnly (removeDotsAndCommas str)"

subsection \<open>\<^verbatim>\<open>String.prototype.replace\<close> with a string pattern\<close>

text \<open>
  \<^verbatim>\<open>s.replace(pattern, replacement)\<close> with two strings replaces the first occurrence of
  \<open>pattern\<close>. The replacement is a template (ECMAScript GetSubstitution): \<^verbatim>\<open>$$\<close> gives one
  \<^verbatim>\<open>$\<close>, \<^verbatim>\<open>$&\<close> the matched text, \<^verbatim>\<open>$`\<close> the text before the match and \<^verbatim>\<open>$'\<close> the text after
  it. A string pattern has no capture groups, so \<^verbatim>\<open>$1\<close>, \<^verbatim>\<open>$<name>\<close> and any other \<^verbatim>\<open>$\<close> are
  copied as they are.
\<close>

fun indexOf :: "jsstring \<Rightarrow> jsstring \<Rightarrow> nat option" where
  "indexOf [] pat = (if pat = [] then Some 0 else None)"
| "indexOf (c # r) pat =
     (if take (length pat) (c # r) = pat then Some 0 else map_option Suc (indexOf r pat))"

fun getSubstitution :: "jsstring \<Rightarrow> jsstring \<Rightarrow> jsstring \<Rightarrow> jsstring \<Rightarrow> jsstring" where
  "getSubstitution matched preceding following (c # d # r) =
     (if c = 0x24 \<and> d = 0x24 then 0x24 # getSubstitution matched preceding following r
      else if c = 0x24 \<and> d = 0x26 then matched @ getSubstitution matched preceding following r
      else if c = 0x24 \<and> d = 0x60 then preceding @ getSubstitution matched preceding following r
      else if c = 0x24 \<and> d = 0x27 then following @ getSubstitution matched preceding following r
      else c # getSubstitution matched preceding following (d # r))"
| "getSubstitution matched preceding following r = r"

definition String_replace :: "jsstring \<Rightarrow> jsstring \<Rightarrow> jsstring \<Rightarrow> jsstring" where
  "String_replace s pat replacement =
     (case indexOf s pat of
        None \<Rightarrow> s
      | Some i \<Rightarrow>
          (let preceding = take i s; following = drop (i + length pat) s
           in preceding @ getSubstitution pat preceding following replacement @ following))"

text \<open>A replacement template with one of the four patterns a string pattern expands.\<close>

fun hasReplacementPattern :: "jsstring \<Rightarrow> bool" where
  "hasReplacementPattern (c # d # r) =
     ((c = 0x24 \<and> (d = 0x24 \<or> d = 0x26 \<or> d = 0x60 \<or> d = 0x27)) \<or> hasReplacementPattern (d # r))"
| "hasReplacementPattern r = False"

text \<open>\<^verbatim>\<open>tagName.toLowerCase()\<close>, on the letters A-Z: what the \<^verbatim>\<open>switch\<close> statements observe.\<close>

definition toLowerCase :: "jsstring \<Rightarrow> jsstring" where
  "toLowerCase s = map (\<lambda>c. if 0x41 \<le> c \<and> c \<le> 0x5A then c + 0x20 else c) s"

section \<open>The parsed document\<close>

text \<open>
  The tree \<^verbatim>\<open>cheerio.load\<close> returns: the children of the root. A node is a text node
  (\<^verbatim>\<open>type === 'text'\<close>, with its \<^verbatim>\<open>data\<close>), an element (tag name, attributes, children) or
  anything else (comment, directive). A node handle is the path of child indices from
  the root; \<open>setData\<close> is the assignment \<^verbatim>\<open>node.data = v\<close>.
\<close>

datatype dom =
    Text jsstring
  | Element jsstring "(jsstring \<times> jsstring) list" "dom list"
  | Comment jsstring
  | Directive jsstring

type_synonym path = "nat list"

fun getData :: "path \<Rightarrow> dom list \<Rightarrow> jsstring option" where
  "getData [] ds = None"
| "getData (i # p) ds =
     (if i < length ds then
        (case ds ! i of
           Text d \<Rightarrow> if p = [] then Some d else None
         | Element t a cs \<Rightarrow> getData p cs
         | _ \<Rightarrow> None)
      else None)"

fun setData :: "path \<Rightarrow> jsstring \<Rightarrow> dom list \<Rightarrow> dom list" where
  "setData [] v ds = ds"
| "setData (i # p) v ds =
     (if i < length ds then
        (case ds ! i of
           Text d \<Rightarrow> if p = [] then ds[i := Text v] else ds
         | Element t a cs \<Rightarrow> ds[i := Element t a (setData p v cs)]
         | _ \<Rightarrow> ds)
      else ds)"

text \<open>The tag name of the element at a path: the container of the text nodes below it.\<close>

fun getTagName :: "path \<Rightarrow> dom list \<Rightarrow> jsstring option" where
  "getTagName [] ds = None"
| "getTagName (i # p) ds =
     (if i < length ds then
        (case ds ! i of
           Element t a cs \<Rightarrow> if p = [] then Some t else getTagName p cs
         | _ \<Rightarrow> None)
      else None)"

section \<open>Text extraction\<close>

text \<open>
  One entry of \<^verbatim>\<open>textNodes\<close>:
  \<^verbatim>\<open>{ node: child, originalText, trimmedText, priority, tagName: element.tagName }\<close>.
\<close>

record fragment =
  node :: path
  originalText :: jsstring
  trimmedText :: jsstring
  priority :: int
  tagName :: jsstring

definition nonTranslatable :: "jsstring list" where
  "nonTranslatable = [js ''script'', js ''style'', js ''meta'', js ''link'']"

definition priorityOf :: "jsstring \<Rightarrow> int" where
  "priorityOf tag =
     (let t = toLowerCase tag in
      if t = js ''h1'' then 5
      else if t = js ''h2'' then 4
      else if t = js ''h3'' then 3
      else if t = js ''strong'' \<or> t = js ''b'' then 2
      else if t = js ''li'' then 1
      else 0)"

text \<open>
  \<^verbatim>\<open>children.each((j, child) => { if (child.type === 'text') { ... } })\<close>: the text children
  of one element, from child index \<open>j\<close> on.
\<close>

fun eachChild :: "path \<Rightarrow> jsstring \<Rightarrow> nat \<Rightarrow> dom list \<Rightarrow> fragment list" where
  "eachChild p tag j [] = []"
| "eachChild p tag j (child # rest) =
     (case child of
        Text d \<Rightarrow>
          (let trimmed = trim d in
           if length trimmed > 1 \<and> \<not> isOnlyNumbers trimmed then
             [\<lparr>node = p @ [j], originalText = d, trimmedText = trimmed,
               priority = priorityOf tag, tagName = tag\<rparr>]
           else [])
      | _ \<Rightarrow> [])
     @ eachChild p tag (Suc j) rest"

text \<open>
  \<^verbatim>\<open>$('*').each((i, element) => { ... })\<close>: every element of the tree in document order.
  The callback returns at once for the four non-translatable tags (the comparison is
  with \<^verbatim>\<open>element.tagName\<close> as it is); the elements below such an element are still
  visited.
\<close>

fun eachElement :: "path \<Rightarrow> dom \<Rightarrow> fragment list"
  and eachElements :: "path \<Rightarrow> nat \<Rightarrow> dom list \<Rightarrow> fragment list" where
  "eachElement p (Element tag attrs cs) =
     (if tag \<in> set nonTranslatable then [] else eachChild p tag 0 cs) @ eachElements p 0 cs"
| "eachElement p (Text d) = []"
| "eachElement p (Comment d) = []"
| "eachElement p (Directive d) = []"
| "eachElements p j [] = []"
| "eachElements p j (c # cs) = eachElement (p @ [j]) c @ eachElements p (Suc j) cs"

definition collectTextNodes :: "dom list \<Rightarrow> fragment list" where
  "collectTextNodes doc = eachElements [] 0 doc"

section \<open>The rate limiter (first variant: a queue drained by one loop)\<close>

text \<open>
  Times are milliseconds, as \<^verbatim>\<open>Date.now()\<close> reads them. \<^verbatim>\<open>setTimeout\<close> replaces a delay
  below 1 (or above \<open>2\<^sup>3\<^sup>1 - 1\<close>) by 1. A timer is taken to fire exactly when it is due,
  so after \<^verbatim>\<open>await new Promise(r => setTimeout(r, d))\<close> the clock reads \<open>now + timerDelay d\<close>.
\<close>

definition timerDelay :: "int \<Rightarrow> int" where
  "timerDelay d = (if d < 1 \<or> 2147483647 < d then 1 else d)"

record RateLimiter =
  maxRequests :: int
  timeWindow :: int
  requests :: "int list"
  queue :: "nat list"
  processing :: bool

text \<open>
  The constructor stores its two arguments and three empty fields. A constructor call
  either returns the object or throws; this one has no statement that throws.
\<close>

definition RateLimiter_fields :: "int \<Rightarrow> int \<Rightarrow> RateLimiter" where
  "RateLimiter_fields maxRequests' timeWindow' =
     \<lparr>maxRequests = maxRequests', timeWindow = timeWindow', requests = [], queue = [],
      processing = False\<rparr>"

definition RateLimiter_new :: "int \<Rightarrow> int \<Rightarrow> js_error + RateLimiter" where
  "RateLimiter_new maxRequests' timeWindow' = Inr (RateLimiter_fields maxRequests' timeWindow')"

text \<open>
  The \<^verbatim>\<open>while (this.queue.length > 0)\<close> loop of \<^verbatim>\<open>processQueue\<close>. The queue holds the waiting
  callers (the model names them by numbers, the source holds their \<^verbatim>\<open>resolve\<close> functions);
  \<open>resolved\<close> collects each caller with the time its promise was resolved. When the window
  is full and empty at once (\<open>maxRequests \<le> 0\<close>), \<^verbatim>\<open>this.requests[0]\<close> is \<^verbatim>\<open>undefined\<close>, the delay
  is \<^verbatim>\<open>NaN\<close> and the timer fires after 1 ms; the loop then never ends, and the function
  has no value (\<open>None\<close>).
\<close>

partial_function (option) processQueue ::
  "RateLimiter \<Rightarrow> int \<Rightarrow> (nat \<times> int) list \<Rightarrow> (RateLimiter \<times> int \<times> (nat \<times> int) list) option" where
  "processQueue L now resolved =
     (if queue L = [] then Some (L\<lparr>processing := False\<rparr>, now, resolved)
      else
        (let reqs = filter (\<lambda>time. now - time < timeWindow L) (requests L) in
         if int (length reqs) < maxRequests L then
           processQueue (L\<lparr>requests := reqs @ [now], queue := tl (queue L)\<rparr>)
             (now + timerDelay 100) (resolved @ [(hd (queue L), now)])
         else
           processQueue (L\<lparr>requests := reqs\<rparr>)
             (now + (case reqs of [] \<Rightarrow> 1
                     | oldest # _ \<Rightarrow> timerDelay (timeWindow L - (now - oldest) + 50)))
             resolved))"

text \<open>
  \<^verbatim>\<open>processQueue()\<close> from its first line: it returns at once when a loop is already
  running or nobody waits.
\<close>

declare processQueue.simps [code]

definition processQueue_call ::
  "RateLimiter \<Rightarrow> int \<Rightarrow> (RateLimiter \<times> int \<times> (nat \<times> int) list) option" where
  "processQueue_call L now =
     (if processing L \<or> queue L = [] then Some (L, now, [])
      else processQueue (L\<lparr>processing := True\<rparr>) now [])"

section \<open>The world of one pipeline run\<close>

text \<open>
  The request sent to the translation service, and what the environment does at one
  attempt: the outcome of \<^verbatim>\<open>httpClient.post\<close> (a rejection: network error, timeout or
  non-2xx status; or a response, of which only \<^verbatim>\<open>response.data.translatedText\<close> is read,
  \<open>JUndefined\<close> when \<^verbatim>\<open>response.data\<close> is falsy or has no such field), the time the call
  took, and the value of \<^verbatim>\<open>Math.random() * 1000\<close> in whole milliseconds.
\<close>

record payload =
  p_text :: jsstring
  p_to :: string
  p_context :: string
  p_preserve_formatting :: bool

datatype http_result = Rejected js_error | Response jsval

record attempt_env =
  reply :: http_result
  latency :: nat
  jitter :: nat

text \<open>The service as one call of \<^verbatim>\<open>translateWithRetry\<close> meets it: attempt number and payload.\<close>

type_synonym service = "nat \<Rightarrow> payload \<Rightarrow> attempt_env"

datatype event =
    Acquired int
  | Staggered int
  | Posted payload
  | BackedOff int
  | ProcessingItem nat
  | Paused int

text \<open>
  \<open>limiter\<close> is the process-wide \<^verbatim>\<open>translationLimiter\<close>; \<open>loopWakes\<close> is the time at which
  the drain loop started by an earlier \<^verbatim>\<open>wait()\<close> ends its last 100 ms sleep (until then
  \<^verbatim>\<open>this.processing\<close> is true); \<open>document\<close> is the tree behind \<^verbatim>\<open>$\<close>; \<open>textNodes\<close> is the array
  of that name; \<open>trace\<close> records what the run does, in order.
\<close>

record world =
  clock :: int
  limiter :: RateLimiter
  loopWakes :: int
  document :: "dom list"
  textNodes :: "fragment list"
  trace :: "event list"

definition sleep :: "(int \<Rightarrow> event) \<Rightarrow> int \<Rightarrow> world \<Rightarrow> world" where
  "sleep kind d w = w\<lparr>clock := clock w + timerDelay d, trace := trace w @ [kind d]\<rparr>"

text \<open>
  \<^verbatim>\<open>await translationLimiter.wait()\<close> by the only caller of a sequential run. \<^verbatim>\<open>wait\<close> pushes
  the caller's \<^verbatim>\<open>resolve\<close>, and calls \<^verbatim>\<open>processQueue()\<close> unless \<^verbatim>\<open>this.processing\<close> is set.
  The flag is set while the loop started by an earlier \<^verbatim>\<open>wait()\<close> is in its last 100 ms
  sleep, that is before \<open>loopWakes\<close>: that loop then finds the caller in the queue when
  it wakes. (The limiter kept in the world is the one the loop leaves behind when it
  ends, with the flag cleared.) The caller is the last in the queue and goes on at the
  time its promise is resolved, while the loop sleeps once more and ends at \<open>finish\<close>.
  A loop that never resolves the promise leaves the caller waiting for ever (\<open>None\<close>).
\<close>

definition RateLimiter_wait :: "world \<Rightarrow> world option" where
  "RateLimiter_wait w =
     (let L = (limiter w)\<lparr>queue := queue (limiter w) @ [length (queue (limiter w))]\<rparr> in
      case (if clock w < loopWakes w
            then processQueue (L\<lparr>processing := True\<rparr>) (loopWakes w) []
            else processQueue_call (L\<lparr>processing := False\<rparr>) (clock w)) of
        None \<Rightarrow> None
      | Some (L', finish, resolved) \<Rightarrow>
          (if resolved = [] then None
           else
             (let at = snd (last resolved)
              in Some (w\<lparr>clock := at, limiter := L', loopWakes := finish,
                         trace := trace w @ [Acquired at]\<rparr>))))"

section \<open>The retry dispatcher\<close>

definition getContextHint :: "jsstring \<Rightarrow> string" where
  "getContextHint tag =
     (let t = toLowerCase tag in
      if t = js ''h1'' then ''This is a main heading title. Translate accurately.''
      else if t = js ''h2'' then ''This is a section heading. Translate accurately.''
      else if t = js ''h3'' \<or> t = js ''h4'' \<or> t = js ''h5'' \<or> t = js ''h6''
        then ''This is a subheading. Translate accurately.''
      else if t = js ''li'' then ''This is a list item.''
      else if t = js ''strong'' \<or> t = js ''b'' then ''This is emphasized important text.''
      else if t = js ''table'' then ''This is table content.''
      else ''This is regular paragraph text.'')"

definition makePayload :: "jsstring \<Rightarrow> jsstring \<Rightarrow> payload" where
  "makePayload text' tag =
     \<lparr>p_text = text', p_to = ''pa'', p_context = getContextHint tag,
      p_preserve_formatting = True\<rparr>"

text \<open>
  The end of the \<^verbatim>\<open>try\<close> block: the post either throws, or its response is accepted when
  \<^verbatim>\<open>response.data && response.data.translatedText\<close> is truthy, or the block throws
  \<^verbatim>\<open>new Error('Invalid response format')\<close>.
\<close>

fun attemptOutcome :: "http_result \<Rightarrow> js_error + jsval" where
  "attemptOutcome (Rejected e) = Inl e"
| "attemptOutcome (Response v) =
     (if truthy v then Inr v else Inl (Error ''Invalid response format''))"

definition post :: "payload \<Rightarrow> attempt_env \<Rightarrow> world \<Rightarrow> world" where
  "post pl env w = w\<lparr>clock := clock w + int (latency env), trace := trace w @ [Posted pl]\<rparr>"

text \<open>
  \<^verbatim>\<open>for (let attempt = 1; attempt <= maxRetries; attempt++) { try { ... } catch (error) { ... } }\<close>
  from a given \<open>attempt\<close> on. A loop that ends without returning gives \<^verbatim>\<open>undefined\<close>.
\<close>

function translateWithRetry_from ::
  "service \<Rightarrow> jsstring \<Rightarrow> jsstring \<Rightarrow> int \<Rightarrow> nat \<Rightarrow> nat \<Rightarrow> world \<Rightarrow>
     ((js_error + jsval) \<times> world) option" where
  "translateWithRetry_from svc text' tag index maxRetries attempt w =
     (if attempt \<le> maxRetries then
        (case RateLimiter_wait w of
           None \<Rightarrow> None
         | Some w1 \<Rightarrow>
             (let w2 = (if index > 0 then sleep Staggered (index * 100) w1 else w1);
                  pl = makePayload text' tag;
                  env = svc attempt pl;
                  w3 = post pl env w2
              in case attemptOutcome (reply env) of
                   Inr translatedText \<Rightarrow> Some (Inr translatedText, w3)
                 | Inl error \<Rightarrow>
                     if attempt = maxRetries then
                       Some (Inl (Error (''All retries failed: '' @ message error)), w3)
                     else
                       translateWithRetry_from svc text' tag index maxRetries (Suc attempt)
                         (sleep BackedOff (2 ^ attempt * 1000 + int (jitter env)) w3)))
      else Some (Inr JUndefined, w))"
  by pat_completeness auto
termination
  by (relation "measure (\<lambda>(svc, text', tag, index, maxRetries, attempt, w). Suc maxRetries - attempt)")
    auto

definition translateWithRetry ::
  "service \<Rightarrow> jsstring \<Rightarrow> jsstring \<Rightarrow> int \<Rightarrow> nat \<Rightarrow> world \<Rightarrow>
     ((js_error + jsval) \<times> world) option" where
  "translateWithRetry svc text' tag index maxRetries w =
     translateWithRetry_from svc text' tag index maxRetries 1 w"

section \<open>The scheduler (first variant: one item at a time)\<close>

text \<open>
  The write-back both variants share:
  \<^verbatim>\<open>if (translated && translated.trim().length > 0) {\<close>
  \<^verbatim>\<open>  item.node.data = item.originalText.replace(item.trimmedText, translated); }\<close>
  A truthy value that is not a string has no \<^verbatim>\<open>trim\<close>: the call throws a TypeError.
\<close>

definition writeTranslation :: "fragment \<Rightarrow> jsval \<Rightarrow> dom list \<Rightarrow> js_error + dom list" where
  "writeTranslation item translated doc =
     (if truthy translated then
        (case translated of
           JStr s \<Rightarrow>
             if length (trim s) > 0 then
               Inr (setData (node item) (String_replace (originalText item) (trimmedText item) s) doc)
             else Inr doc
         | _ \<Rightarrow> Inl (TypeError ''translated.trim is not a function''))
      else Inr doc)"

definition defaultMaxRetries :: nat where
  "defaultMaxRetries = 5"

text \<open>
  \<^verbatim>\<open>processBatchSequential\<close>: the loop over the batch from index \<open>i\<close> on. Everything that can
  throw is inside the \<^verbatim>\<open>try\<close> block, whose \<^verbatim>\<open>catch\<close> only warns (`Keep original text on
  failure'), so the function itself never throws. \<open>svcs i\<close> is the service as the
  \<open>i\<close>-th member of the batch meets it.
\<close>

fun processBatchSequential_from ::
  "(nat \<Rightarrow> service) \<Rightarrow> nat \<Rightarrow> fragment list \<Rightarrow> world \<Rightarrow> ((js_error + unit) \<times> world) option" where
  "processBatchSequential_from svcs i [] w = Some (Inr (), w)"
| "processBatchSequential_from svcs i (item # rest) w =
     (case RateLimiter_wait w of
        None \<Rightarrow> None
      | Some w1 \<Rightarrow>
          (case translateWithRetry (svcs i) (trimmedText item) (tagName item) (int i)
                  defaultMaxRetries w1 of
             None \<Rightarrow> None
           | Some (Inl error, w2) \<Rightarrow> processBatchSequential_from svcs (Suc i) rest w2
           | Some (Inr translated, w2) \<Rightarrow>
               (case writeTranslation item translated (document w2) of
                  Inl error \<Rightarrow> processBatchSequential_from svcs (Suc i) rest w2
                | Inr doc' \<Rightarrow>
                    processBatchSequential_from svcs (Suc i) rest (w2\<lparr>document := doc'\<rparr>))))"

definition processBatchSequential ::
  "(nat \<Rightarrow> service) \<Rightarrow> fragment list \<Rightarrow> world \<Rightarrow> ((js_error + unit) \<times> world) option" where
  "processBatchSequential svcs batch w = processBatchSequential_from svcs 0 batch w"

definition BATCH_SIZE :: nat where
  "BATCH_SIZE = 1"

definition DELAY_BETWEEN_REQUESTS :: int where
  "DELAY_BETWEEN_REQUESTS = 500"

text \<open>
  \<^verbatim>\<open>processSequentialTranslation\<close>: the loop \<^verbatim>\<open>for (let i = 0; i < textNodes.length; i += BATCH_SIZE)\<close>
  from \<open>i\<close> on, with the two counters. \<open>svcs k\<close> is the service as item \<open>k\<close> of the array
  meets it. The log line \<^verbatim>\<open>Processing item ${i + 1}/...\<close> is kept in the trace as
  \<open>ProcessingItem i\<close>; the other console output is left out.
\<close>

function processSequentialTranslation_from ::
  "(nat \<Rightarrow> service) \<Rightarrow> fragment list \<Rightarrow> nat \<Rightarrow> nat \<times> nat \<Rightarrow> world \<Rightarrow>
     ((nat \<times> nat) \<times> world) option" where
  "processSequentialTranslation_from svcs nodes i counts w =
     (if i < length nodes then
        (let batch = take BATCH_SIZE (drop i nodes);
             w0 = w\<lparr>trace := trace w @ [ProcessingItem i]\<rparr>
         in case processBatchSequential (\<lambda>k. svcs (i + k)) batch w0 of
              None \<Rightarrow> None
            | Some (Inr u, w1) \<Rightarrow>
                processSequentialTranslation_from svcs nodes (i + BATCH_SIZE)
                  (fst counts + length batch, snd counts)
                  (if i + BATCH_SIZE < length nodes
                   then sleep Paused DELAY_BETWEEN_REQUESTS w1 else w1)
            | Some (Inl error, w1) \<Rightarrow>
                processSequentialTranslation_from svcs nodes (i + BATCH_SIZE)
                  (fst counts, snd counts + length batch) w1)
      else Some (counts, w))"
  by pat_completeness auto
termination
  by (relation "measure (\<lambda>(svcs, nodes, i, counts, w). length nodes - i)")
    (auto simp: BATCH_SIZE_def)

definition processSequentialTranslation ::
  "(nat \<Rightarrow> service) \<Rightarrow> fragment list \<Rightarrow> world \<Rightarrow> ((nat \<times> nat) \<times> world) option" where
  "processSequentialTranslation svcs nodes w =
     processSequentialTranslation_from svcs nodes 0 (0, 0) w"

text \<open>
  \<^verbatim>\<open>textNodes.sort((a, b) => b.priority - a.priority)\<close>: \<^verbatim>\<open>Array.prototype.sort\<close> sorts the
  array itself and is stable; the comparator puts \<open>a\<close> first when its priority is
  higher. The function gives the contents of the array after the call.
\<close>

definition sortByPriority :: "fragment list \<Rightarrow> fragment list" where
  "sortByPriority nodes = sort_key (\<lambda>a. - priority a) nodes"

text \<open>
  \<^verbatim>\<open>translateHtmlStructureOptimized\<close>. The parser \<^verbatim>\<open>cheerio.load(_, { decodeEntities: false })\<close>
  and the serializer \<^verbatim>\<open>$.html()\<close> belong to a library: they are the parameters \<open>load\<close>
  and \<open>html\<close>.
\<close>

definition translateHtmlStructureOptimized ::
  "(jsstring \<Rightarrow> dom list) \<Rightarrow> (dom list \<Rightarrow> jsstring) \<Rightarrow> (nat \<Rightarrow> service) \<Rightarrow> jsstring \<Rightarrow> world \<Rightarrow>
     (jsstring \<times> world) option" where
  "translateHtmlStructureOptimized load html svcs htmlEnglish w =
     (let w1 = w\<lparr>document := load htmlEnglish\<rparr>;
          w2 = w1\<lparr>textNodes := collectTextNodes (document w1)\<rparr>
      in if length (textNodes w2) = 0 then Some (htmlEnglish, w2)
         else
           (let w3 = w2\<lparr>textNodes := sortByPriority (textNodes w2)\<rparr>
            in case processSequentialTranslation svcs (textNodes w3) w3 of
                 None \<Rightarrow> None
               | Some (counts, w4) \<Rightarrow> Some (html (document w4), w4)))"

section \<open>The second variant\<close>

text \<open>
  The second \<^verbatim>\<open>RateLimiter\<close> has no queue: \<^verbatim>\<open>wait()\<close> reads the clock once, purges, sleeps
  when the window is full, and then records the time it read at the start. The model
  is one call that no other call interleaves with: it gives the limiter after the call
  and the time at which the call returns.
\<close>

record RateLimiter2 =
  maxRequests2 :: int
  timeWindow2 :: int
  requests2 :: "int list"

definition RateLimiter2_fields :: "int \<Rightarrow> int \<Rightarrow> RateLimiter2" where
  "RateLimiter2_fields maxRequests' timeWindow' =
     \<lparr>maxRequests2 = maxRequests', timeWindow2 = timeWindow', requests2 = []\<rparr>"

definition RateLimiter2_new :: "int \<Rightarrow> int \<Rightarrow> js_error + RateLimiter2" where
  "RateLimiter2_new maxRequests' timeWindow' = Inr (RateLimiter2_fields maxRequests' timeWindow')"

definition RateLimiter2_wait :: "RateLimiter2 \<Rightarrow> int \<Rightarrow> RateLimiter2 \<times> int" where
  "RateLimiter2_wait L now =
     (let reqs = filter (\<lambda>time. now - time < timeWindow2 L) (requests2 L);
          returns =
            (if int (length reqs) \<ge> maxRequests2 L then
               now + (case reqs of [] \<Rightarrow> 1
                      | oldest # _ \<Rightarrow> timerDelay (timeWindow2 L - (now - oldest) + 100))
             else now)
      in (L\<lparr>requests2 := reqs @ [now]\<rparr>, returns))"

text \<open>
  The second \<^verbatim>\<open>translateWithRetry\<close> (lines 640-677) differs from the first in four places:
  the stagger is \<^verbatim>\<open>index * 50\<close>, the default of \<^verbatim>\<open>maxRetries\<close> is 3, the backoff has no
  jitter, and after the last attempt the error caught is thrown as it is. It is followed
  here as one call, with the limiter as that call finds it: the other calls of a batch
  run between its awaits and change the times and the limiter's list, not what this
  call does nor in which order. \<^verbatim>\<open>wait()\<close> of the second limiter always returns, and so
  does the call.
\<close>

record world2 =
  clock2 :: int
  limiter2 :: RateLimiter2
  trace2 :: "event list"

definition sleep2 :: "(int \<Rightarrow> event) \<Rightarrow> int \<Rightarrow> world2 \<Rightarrow> world2" where
  "sleep2 kind d w = w\<lparr>clock2 := clock2 w + timerDelay d, trace2 := trace2 w @ [kind d]\<rparr>"

definition await_wait2 :: "world2 \<Rightarrow> world2" where
  "await_wait2 w =
     (case RateLimiter2_wait (limiter2 w) (clock2 w) of
        (L', returns) \<Rightarrow>
          w\<lparr>clock2 := returns, limiter2 := L', trace2 := trace2 w @ [Acquired returns]\<rparr>)"

definition post2 :: "payload \<Rightarrow> attempt_env \<Rightarrow> world2 \<Rightarrow> world2" where
  "post2 pl env w = w\<lparr>clock2 := clock2 w + int (latency env), trace2 := trace2 w @ [Posted pl]\<rparr>"

function translateWithRetry2_from ::
  "service \<Rightarrow> jsstring \<Rightarrow> jsstring \<Rightarrow> int \<Rightarrow> nat \<Rightarrow> nat \<Rightarrow> world2 \<Rightarrow> (js_error + jsval) \<times> world2" where
  "translateWithRetry2_from svc text' tag index maxRetries attempt w =
     (if attempt \<le> maxRetries then
        (let w1 = await_wait2 w;
             w2 = (if index > 0 then sleep2 Staggered (index * 50) w1 else w1);
             pl = makePayload text' tag;
             env = svc attempt pl;
             w3 = post2 pl env w2
         in case attemptOutcome (reply env) of
              Inr translatedText \<Rightarrow> (Inr translatedText, w3)
            | Inl error \<Rightarrow>
                if attempt = maxRetries then (Inl error, w3)
                else
                  translateWithRetry2_from svc text' tag index maxRetries (Suc attempt)
                    (sleep2 BackedOff (2 ^ attempt * 1000) w3))
      else (Inr JUndefined, w))"
  by pat_completeness auto
termination
  by (relation "measure (\<lambda>(svc, text', tag, index, maxRetries, attempt, w). Suc maxRetries - attempt)")
    auto

definition translateWithRetry2 ::
  "service \<Rightarrow> jsstring \<Rightarrow> jsstring \<Rightarrow> int \<Rightarrow> nat \<Rightarrow> world2 \<Rightarrow> (js_error + jsval) \<times> world2" where
  "translateWithRetry2 svc text' tag index maxRetries w =
     translateWithRetry2_from svc text' tag index maxRetries 1 w"

definition defaultMaxRetries2 :: nat where
  "defaultMaxRetries2 = 3"

text \<open>
  \<^verbatim>\<open>processBatch\<close> starts \<^verbatim>\<open>translateWithRetry\<close> for every member of the batch at once and
  waits until all have settled. How each promise settles depends on the network and on
  the interleaving; the model takes it from the environment (\<open>settled index\<close>). The
  \<^verbatim>\<open>then\<close> callback writes the member's own node, from values captured at extraction,
  and the \<^verbatim>\<open>catch\<close> callback keeps the original text.
\<close>

definition thenCatch :: "fragment \<Rightarrow> js_error + jsval \<Rightarrow> dom list \<Rightarrow> dom list" where
  "thenCatch item outcome doc =
     (case outcome of
        Inl error \<Rightarrow> doc
      | Inr translated \<Rightarrow>
          (case writeTranslation item translated doc of Inl error \<Rightarrow> doc | Inr doc' \<Rightarrow> doc'))"

fun processBatch_from ::
  "(nat \<Rightarrow> js_error + jsval) \<Rightarrow> nat \<Rightarrow> fragment list \<Rightarrow> dom list \<Rightarrow> dom list" where
  "processBatch_from settled index [] doc = doc"
| "processBatch_from settled index (item # rest) doc =
     processBatch_from settled (Suc index) rest (thenCatch item (settled index) doc)"

definition processBatch :: "(nat \<Rightarrow> js_error + jsval) \<Rightarrow> fragment list \<Rightarrow> dom list \<Rightarrow> dom list" where
  "processBatch settled batch doc = processBatch_from settled 0 batch doc"

definition BATCH_SIZE2 :: nat where
  "BATCH_SIZE2 = 8"

function processTranslationBatches_from ::
  "(nat \<Rightarrow> js_error + jsval) \<Rightarrow> fragment list \<Rightarrow> nat \<Rightarrow> dom list \<Rightarrow> dom list" where
  "processTranslationBatches_from settled nodes i doc =
     (if i < length nodes then
        processTranslationBatches_from settled nodes (i + BATCH_SIZE2)
          (processBatch (\<lambda>k. settled (i + k)) (take BATCH_SIZE2 (drop i nodes)) doc)
      else doc)"
  by pat_completeness auto
termination
  by (relation "measure (\<lambda>(settled, nodes, i, doc). length nodes - i)")
    (auto simp: BATCH_SIZE2_def)

definition translateHtmlStructureOptimized2 ::
  "(jsstring \<Rightarrow> dom list) \<Rightarrow> (dom list \<Rightarrow> jsstring) \<Rightarrow> (nat \<Rightarrow> js_error + jsval) \<Rightarrow> jsstring \<Rightarrow>
     jsstring" where
  "translateHtmlStructureOptimized2 load html settled htmlEnglish =
     (let doc = load htmlEnglish; nodes = collectTextNodes doc
      in if length nodes = 0 then htmlEnglish
         else html (processTranslationBatches_from settled (sortByPriority nodes) 0 doc))"

section \<open>What a run does, as functions of its inputs\<close>

text \<open>
  The definitions of this section are not in the source: they state what the code above
  computes, and the lemmas below prove that it does.

  \<open>retryOutcome_from\<close> is how the promise of \<^verbatim>\<open>translateWithRetry\<close> settles and
  \<open>attemptsMade_from\<close> how many posts it makes, as functions of the service's replies alone.
\<close>

function retryOutcome_from :: "service \<Rightarrow> payload \<Rightarrow> nat \<Rightarrow> nat \<Rightarrow> js_error + jsval" where
  "retryOutcome_from svc pl maxRetries attempt =
     (if attempt \<le> maxRetries then
        (case attemptOutcome (reply (svc attempt pl)) of
           Inr translatedText \<Rightarrow> Inr translatedText
         | Inl error \<Rightarrow>
             if attempt = maxRetries then Inl (Error (''All retries failed: '' @ message error))
             else retryOutcome_from svc pl maxRetries (Suc attempt))
      else Inr JUndefined)"
  by pat_completeness auto
termination
  by (relation "measure (\<lambda>(svc, pl, maxRetries, attempt). Suc maxRetries - attempt)") auto

function attemptsMade_from :: "service \<Rightarrow> payload \<Rightarrow> nat \<Rightarrow> nat \<Rightarrow> nat" where
  "attemptsMade_from svc pl maxRetries attempt =
     (if attempt \<le> maxRetries then
        (case attemptOutcome (reply (svc attempt pl)) of
           Inr translatedText \<Rightarrow> 1
         | Inl error \<Rightarrow>
             if attempt = maxRetries then 1
             else Suc (attemptsMade_from svc pl maxRetries (Suc attempt)))
      else 0)"
  by pat_completeness auto
termination
  by (relation "measure (\<lambda>(svc, pl, maxRetries, attempt). Suc maxRetries - attempt)") auto

text \<open>Reading a trace.\<close>

fun isPosted :: "event \<Rightarrow> bool" where
  "isPosted (Posted pl) = True"
| "isPosted e = False"

fun isStaggered :: "event \<Rightarrow> bool" where
  "isStaggered (Staggered d) = True"
| "isStaggered e = False"

fun isProcessingItem :: "event \<Rightarrow> bool" where
  "isProcessingItem (ProcessingItem i) = True"
| "isProcessingItem e = False"

text \<open>Every post comes after an acquire that no earlier post has used.\<close>

fun acquiredBeforeEachPost :: "bool \<Rightarrow> event list \<Rightarrow> bool" where
  "acquiredBeforeEachPost armed [] = True"
| "acquiredBeforeEachPost armed (Acquired t # es) = acquiredBeforeEachPost True es"
| "acquiredBeforeEachPost armed (Posted pl # es) = (armed \<and> acquiredBeforeEachPost False es)"
| "acquiredBeforeEachPost armed (e # es) = acquiredBeforeEachPost armed es"

text \<open>
  Every post comes directly after a stagger sleep of \<open>d\<close> ms, and every stagger sleep is
  one of \<open>d\<close> ms directly before a post.
\<close>

fun staggeredBeforeEachPost :: "int \<Rightarrow> event list \<Rightarrow> bool" where
  "staggeredBeforeEachPost d [] = True"
| "staggeredBeforeEachPost d (Staggered d' # Posted pl # es) =
     (d' = d \<and> staggeredBeforeEachPost d es)"
| "staggeredBeforeEachPost d (Staggered d' # es) = False"
| "staggeredBeforeEachPost d (Posted pl # es) = False"
| "staggeredBeforeEachPost d (e # es) = staggeredBeforeEachPost d es"

text \<open>
  The events of a call that staggers by \<open>d\<close> ms come in rounds, one for each attempt: an
  acquire, directly after it a stagger sleep of \<open>d\<close> ms, directly after that the post.
  Between the rounds there are backoff sleeps and nothing else.
\<close>

fun staggerRounds :: "int \<Rightarrow> event list \<Rightarrow> bool" where
  "staggerRounds d [] = True"
| "staggerRounds d (Acquired t # Staggered d' # Posted pl # es) = (d' = d \<and> staggerRounds d es)"
| "staggerRounds d (BackedOff b # es) = staggerRounds d es"
| "staggerRounds d (e # es) = False"

definition staggerEvents :: "int \<Rightarrow> event list" where
  "staggerEvents index = (if index > 0 then [Staggered (index * 100)] else [])"

definition retryTraceOK :: "int \<Rightarrow> payload \<Rightarrow> nat \<Rightarrow> event list \<Rightarrow> bool" where
  "retryTraceOK index pl n es \<longleftrightarrow>
     acquiredBeforeEachPost False es \<and>
     filter isPosted es = replicate n (Posted pl) \<and>
     filter isStaggered es = concat (replicate n (staggerEvents index)) \<and>
     (if index > 0 then staggeredBeforeEachPost (index * 100) es else True) \<and>
     filter isProcessingItem es = []"

text \<open>
  One item of \<^verbatim>\<open>textNodes\<close>: the payload sent for it, how its \<^verbatim>\<open>translateWithRetry\<close> call
  settles, the text written to its node (if any), and the text of its node afterwards.
\<close>

definition itemPayload :: "fragment \<Rightarrow> payload" where
  "itemPayload item = makePayload (trimmedText item) (tagName item)"

definition itemOutcome :: "service \<Rightarrow> fragment \<Rightarrow> js_error + jsval" where
  "itemOutcome svc item = retryOutcome_from svc (itemPayload item) defaultMaxRetries 1"

definition itemAttempts :: "service \<Rightarrow> fragment \<Rightarrow> nat" where
  "itemAttempts svc item = attemptsMade_from svc (itemPayload item) defaultMaxRetries 1"

definition newData :: "fragment \<Rightarrow> js_error + jsval \<Rightarrow> jsstring option" where
  "newData item outcome =
     (case outcome of
        Inr (JStr s) \<Rightarrow>
          if s \<noteq> [] \<and> length (trim s) > 0
          then Some (String_replace (originalText item) (trimmedText item) s) else None
      | _ \<Rightarrow> None)"

definition textAfter :: "fragment \<Rightarrow> js_error + jsval \<Rightarrow> jsstring" where
  "textAfter item outcome =
     (case newData item outcome of None \<Rightarrow> originalText item | Some v \<Rightarrow> v)"

fun applyItems :: "(nat \<Rightarrow> service) \<Rightarrow> nat \<Rightarrow> fragment list \<Rightarrow> dom list \<Rightarrow> dom list" where
  "applyItems svcs i [] doc = doc"
| "applyItems svcs i (item # rest) doc =
     applyItems svcs (Suc i) rest (thenCatch item (itemOutcome (svcs i) item) doc)"

fun postsOf :: "(nat \<Rightarrow> service) \<Rightarrow> nat \<Rightarrow> fragment list \<Rightarrow> event list" where
  "postsOf svcs i [] = []"
| "postsOf svcs i (item # rest) =
     replicate (itemAttempts (svcs i) item) (Posted (itemPayload item)) @ postsOf svcs (Suc i) rest"

definition applyAt :: "(nat \<Rightarrow> service) \<Rightarrow> fragment list \<Rightarrow> dom list \<Rightarrow> nat \<Rightarrow> dom list" where
  "applyAt svcs nodes doc k = thenCatch (nodes ! k) (itemOutcome (svcs k) (nodes ! k)) doc"

text \<open>
  The log lines and the posts of a run, in order: for each item from \<open>i\<close> on its
  \<open>ProcessingItem\<close> line, then one post for each attempt made for it.
\<close>

definition itemLog :: "(nat \<Rightarrow> service) \<Rightarrow> fragment list \<Rightarrow> nat \<Rightarrow> event list" where
  "itemLog svcs nodes k =
     ProcessingItem k # replicate (itemAttempts (svcs k) (nodes ! k)) (Posted (itemPayload (nodes ! k)))"

definition dispatchLog :: "(nat \<Rightarrow> service) \<Rightarrow> fragment list \<Rightarrow> nat \<Rightarrow> event list" where
  "dispatchLog svcs nodes i = concat (map (itemLog svcs nodes) [i..<length nodes])"

definition postedBy :: "fragment list \<Rightarrow> event set" where
  "postedBy items = (\<lambda>f. Posted (itemPayload f)) ` set items"

text \<open>What extraction guarantees of a fragment, and where the fragment sits in the tree.\<close>

definition fragOK :: "fragment \<Rightarrow> bool" where
  "fragOK f \<longleftrightarrow>
     trimmedText f = trim (originalText f) \<and> 1 < length (trimmedText f) \<and>
     \<not> isOnlyNumbers (trimmedText f) \<and> priority f = priorityOf (tagName f)"

definition fragAt :: "fragment \<Rightarrow> path \<Rightarrow> dom list \<Rightarrow> bool" where
  "fragAt f r ds \<longleftrightarrow>
     getData r ds = Some (originalText f) \<and> getTagName (butlast r) ds = Some (tagName f) \<and>
     tagName f \<notin> set nonTranslatable"

text \<open>Digits with \<^verbatim>\<open>.\<close> and \<^verbatim>\<open>,\<close> between or around them, and at least one digit.\<close>

definition digitsWithSeparators :: "jsstring \<Rightarrow> bool" where
  "digitsWithSeparators s \<longleftrightarrow>
     list_all (\<lambda>c. isDigit c \<or> c = 0x2E \<or> c = 0x2C) s \<and> list_ex isDigit s"

text \<open>The limiter can admit at all; and the time the window's entries still have to live.\<close>

definition ready :: "world \<Rightarrow> bool" where
  "ready w \<longleftrightarrow> 0 < maxRequests (limiter w)"

definition lifetimes :: "RateLimiter \<Rightarrow> int \<Rightarrow> nat" where
  "lifetimes L now = sum_list (map (\<lambda>t. nat (t + timeWindow L - now)) (requests L))"

section \<open>Examples\<close>

text \<open>
  A plain serializer and some parsed documents and services, for the concrete runs
  below. \<open>translationWorld\<close> starts a run with \<^verbatim>\<open>translationLimiter = new RateLimiter(3, 1500)\<close>.
\<close>

fun plainHtmlNode :: "dom \<Rightarrow> jsstring" and plainHtml :: "dom list \<Rightarrow> jsstring" where
  "plainHtmlNode (Text d) = d"
| "plainHtmlNode (Element t attrs cs) =
     js ''<'' @ t @ concat (map (\<lambda>(n, v). [0x20] @ n @ [0x3D, 0x22] @ v @ [0x22]) attrs) @ js ''>''
       @ plainHtml cs @ js ''</'' @ t @ js ''>''"
| "plainHtmlNode (Comment d) = js ''<!--'' @ d @ js ''-->''"
| "plainHtmlNode (Directive d) = js ''<'' @ d @ js ''>''"
| "plainHtml [] = []"
| "plainHtml (c # cs) = plainHtmlNode c @ plainHtml cs"

definition translationWorld :: world where
  "translationWorld =
     \<lparr>clock = 0, limiter = RateLimiter_fields 3 1500, loopWakes = 0, document = [],
      textNodes = [], trace = []\<rparr>"

text \<open>The second variant's limiter as the program creates it, at time 0.\<close>

definition batchWorld :: world2 where
  "batchWorld = \<lparr>clock2 = 0, limiter2 = RateLimiter2_fields 5 1000, trace2 = []\<rparr>"

definition page :: "dom list \<Rightarrow> dom list" where
  "page body = [Element (js ''html'') [] [Element (js ''head'') [] [], Element (js ''body'') [] body]]"

definition sampleDoc :: "dom list" where
  "sampleDoc =
     [Element (js ''html'') []
        [Element (js ''head'') [] [Element (js ''style'') [] [Text (js ''p { }'')]],
         Element (js ''body'') []
           [Element (js ''p'') []
              [Text (js '' Hello world ''), Element (js ''b'') [] [Text (js ''now'')]],
            Element (js ''h1'') [] [Text (js ''Title'')],
            Element (js ''p'') [] [Text (js ''3,14'')]]]]"

definition helloDoc :: "dom list" where
  "helloDoc = page [Element (js ''p'') [] [Text (js ''Hello world'')]]"

definition dollarDoc :: "dom list" where
  "dollarDoc = page [Element (js ''p'') [] [Text (js ''a$$b'')]]"

definition numbersDoc :: "dom list" where
  "numbersDoc = page [Element (js ''p'') [] [Text (js ''42'')], Element (js ''p'') [] [Text (js '' x '')]]"

text \<open>A service that echoes, one that is down for item 1, and one that fails once.\<close>

definition echoService :: service where
  "echoService attempt pl = \<lparr>reply = Response (JStr (p_text pl)), latency = 40, jitter = 0\<rparr>"

definition downForItem1 :: "nat \<Rightarrow> service" where
  "downForItem1 i attempt pl =
     (if i = 1 then \<lparr>reply = Rejected (Error ''Network Error''), latency = 10, jitter = 0\<rparr>
      else \<lparr>reply = Response (JStr (js ''pa:'' @ p_text pl)), latency = 40, jitter = 0\<rparr>)"

definition failsOnce :: service where
  "failsOnce attempt pl =
     (if attempt = 1 then \<lparr>reply = Response JNull, latency = 40, jitter = 7\<rparr>
      else \<lparr>reply = Response (JStr (js ''ok'')), latency = 40, jitter = 0\<rparr>)"

section \<open>Lemmas\<close>


subsection \<open>Strings\<close>

lemma trim_parts: "leadingSpace s @ trim s @ trailingSpace s = s"
proof -
  have "rev (dropWhile isWhiteSpace (rev t)) @ rev (takeWhile isWhiteSpace (rev t)) = t" for t
    by (metis rev_append rev_rev_ident takeWhile_dropWhile_id)
  then show ?thesis
    by (simp add: leadingSpace_def trim_def trailingSpace_def)
qed

lemma leadingSpace_all: "c \<in> set (leadingSpace s) \<Longrightarrow> isWhiteSpace c"
  by (auto simp: leadingSpace_def dest: set_takeWhileD)

lemma rev_dropWhile_rev: "rev (dropWhile P (rev t)) @ rev (takeWhile P (rev t)) = t"
  by (metis rev_append rev_rev_ident takeWhile_dropWhile_id)

lemma trim_hd: "trim s \<noteq> [] \<Longrightarrow> \<not> isWhiteSpace (hd (trim s))"
proof -
  assume a: "trim s \<noteq> []"
  define t where "t = dropWhile isWhiteSpace s"
  have ts: "trim s = rev (dropWhile isWhiteSpace (rev t))"
    by (simp add: trim_def t_def)
  have t: "t \<noteq> []"
  proof
    assume "t = []"
    with ts have "trim s = []" by simp
    with a show False by simp
  qed
  then have h: "\<not> isWhiteSpace (hd t)" unfolding t_def by (rule hd_dropWhile)
  have "hd (trim s @ rev (takeWhile isWhiteSpace (rev t))) = hd t"
    unfolding ts rev_dropWhile_rev ..
  then have "hd (trim s) = hd t" using a by simp
  with h show ?thesis by simp
qed

lemma indexOf_after_space:
  "pat \<noteq> [] \<Longrightarrow> \<not> isWhiteSpace (hd pat) \<Longrightarrow> \<forall>c\<in>set l. isWhiteSpace c \<Longrightarrow>
     indexOf (l @ pat @ t) pat = Some (length l)"
proof (induction l)
  case Nil
  then show ?case by (cases pat) auto
next
  case (Cons w l)
  then have "take (length pat) (w # l @ pat @ t) \<noteq> pat"
    by (cases pat) auto
  with Cons show ?case by simp
qed

lemma String_replace_trimmed:
  assumes "trim s \<noteq> []"
  shows "String_replace s (trim s) r =
           leadingSpace s @ getSubstitution (trim s) (leadingSpace s) (trailingSpace s) r @ trailingSpace s"
proof -
  have i: "indexOf s (trim s) = Some (length (leadingSpace s))"
    using indexOf_after_space[of "trim s" "leadingSpace s" "trailingSpace s"] assms trim_hd[OF assms]
      leadingSpace_all[of _ s] by (simp add: trim_parts)
  have s: "s = leadingSpace s @ trim s @ trailingSpace s" by (simp add: trim_parts)
  have t: "take (length (leadingSpace s)) s = leadingSpace s"
    by (subst s) simp
  have d: "drop (length (leadingSpace s) + length (trim s)) s = trailingSpace s"
    by (subst s) (simp add: drop_append)
  show ?thesis
    by (simp add: String_replace_def i Let_def t d)
qed

lemma getSubstitution_plain:
  "\<not> hasReplacementPattern r \<Longrightarrow> getSubstitution m b a r = r"
  by (induction m b a r rule: getSubstitution.induct) auto

lemma String_replace_plain:
  "trim s \<noteq> [] \<Longrightarrow> \<not> hasReplacementPattern r \<Longrightarrow>
     String_replace s (trim s) r = leadingSpace s @ r @ trailingSpace s"
  by (simp add: String_replace_trimmed getSubstitution_plain)

lemma String_replace_echo:
  "trim s \<noteq> [] \<Longrightarrow> \<not> hasReplacementPattern (trim s) \<Longrightarrow> String_replace s (trim s) (trim s) = s"
  by (simp add: String_replace_plain trim_parts)

subsection \<open>Reading and writing the tree\<close>

lemma getData_setData:
  "getData q (setData p v ds) = (if q = p \<and> getData p ds \<noteq> None then Some v else getData q ds)"
proof (induction p arbitrary: q ds)
  case Nil
  then show ?case by simp
next
  case (Cons i p)
  show ?case
  proof (cases q)
    case Nil
    then show ?thesis by simp
  next
    case (Cons k q')
    show ?thesis
    proof (cases "i < length ds")
      case False
      then show ?thesis by simp
    next
      case True
      show ?thesis
      proof (cases "ds ! i")
        case (Text d)
        with True Cons show ?thesis
          by (auto simp: nth_list_update split: dom.splits)
      next
        case (Element t a cs)
        with True Cons Cons.IH[of q' cs] show ?thesis
          by (auto simp: nth_list_update split: dom.splits)
      next
        case (Comment d)
        with True Cons show ?thesis by simp
      next
        case (Directive d)
        with True Cons show ?thesis by simp
      qed
    qed
  qed
qed

lemma setData_same: "getData p ds = Some v \<Longrightarrow> setData p v ds = ds"
proof (induction p arbitrary: ds)
  case Nil
  then show ?case by simp
next
  case (Cons i p)
  then show ?case
    by (cases "ds ! i") (auto simp: list_update_same_conv split: if_splits)
qed

subsection \<open>Extraction\<close>

lemma eachChild_facts:
  "f \<in> set (eachChild p tag j cs) \<Longrightarrow>
     \<exists>k. k < length cs \<and> node f = p @ [j + k] \<and> cs ! k = Text (originalText f) \<and>
         tagName f = tag \<and> fragOK f"
proof (induction cs arbitrary: j)
  case Nil
  then show ?case by simp
next
  case (Cons c cs)
  from Cons.prems consider
    (here) "f \<in> set (case c of Text d \<Rightarrow>
          (let trimmed = trim d in
           if length trimmed > 1 \<and> \<not> isOnlyNumbers trimmed then
             [\<lparr>node = p @ [j], originalText = d, trimmedText = trimmed,
               priority = priorityOf tag, tagName = tag\<rparr>]
           else [])
      | _ \<Rightarrow> [])"
    | (later) "f \<in> set (eachChild p tag (Suc j) cs)"
    by auto
  then show ?case
  proof cases
    case here
    then have "0 < length (c # cs) \<and> node f = p @ [j + 0] \<and> (c # cs) ! 0 = Text (originalText f) \<and>
         tagName f = tag \<and> fragOK f"
      by (cases c) (auto simp: Let_def fragOK_def split: if_splits)
    then show ?thesis by blast
  next
    case later
    from Cons.IH[OF later] obtain k where
      "k < length cs" "node f = p @ [Suc j + k]" "cs ! k = Text (originalText f)"
         "tagName f = tag" "fragOK f" by blast
    then have "Suc k < length (c # cs) \<and> node f = p @ [j + Suc k] \<and> (c # cs) ! Suc k = Text (originalText f) \<and>
         tagName f = tag \<and> fragOK f" by simp
    then show ?thesis by blast
  qed
qed

lemma getData_shift: "getData (Suc k # q) (c # cs) = getData (k # q) cs"
  by simp

lemma getTagName_shift: "getTagName (Suc k # q) (c # cs) = getTagName (k # q) cs"
  by simp

lemma getData_down: "getData (0 # k # q) [Element tag attrs cs] = getData (k # q) cs"
  by simp

lemma getTagName_down: "getTagName (0 # k # q) [Element tag attrs cs] = getTagName (k # q) cs"
  by simp

lemma getData_head: "getData (0 # q) (c # cs) = getData (0 # q) [c]"
  by simp

lemma getTagName_head: "getTagName (0 # q) (c # cs) = getTagName (0 # q) [c]"
  by simp

lemma fragAt_nonempty: "fragAt f (k # q) cs \<Longrightarrow> q \<noteq> []"
  by (auto simp: fragAt_def)

lemma fragAt_shift: "fragAt f (k # q) cs \<Longrightarrow> fragAt f (Suc k # q) (c # cs)"
proof -
  assume a: "fragAt f (k # q) cs"
  then have q: "q \<noteq> []" by (rule fragAt_nonempty)
  then have b: "butlast (Suc k # q) = Suc k # butlast q" "butlast (k # q) = k # butlast q" by simp_all
  show ?thesis using a unfolding fragAt_def b getData_shift getTagName_shift .
qed

lemma fragAt_head: "fragAt f (0 # q) [c] \<Longrightarrow> fragAt f (0 # q) (c # cs)"
proof -
  assume a: "fragAt f (0 # q) [c]"
  then have q: "q \<noteq> []" by (rule fragAt_nonempty)
  then have b: "butlast (0 # q) = 0 # butlast q" by simp
  show ?thesis using a unfolding fragAt_def b getData_head[of q c cs] getTagName_head[of "butlast q" c cs] .
qed

lemma fragAt_down: "fragAt f (k # q) cs \<Longrightarrow> fragAt f (0 # k # q) [Element tag attrs cs]"
proof -
  assume a: "fragAt f (k # q) cs"
  then have q: "q \<noteq> []" by (rule fragAt_nonempty)
  then have b: "butlast (0 # k # q) = 0 # k # butlast q" "butlast (k # q) = k # butlast q" by simp_all
  show ?thesis using a unfolding fragAt_def b getData_down getTagName_down .
qed

lemma each_facts:
  "f \<in> set (eachElement p n) \<Longrightarrow> \<exists>q. node f = p @ q \<and> fragAt f (0 # q) [n] \<and> fragOK f"
  "f \<in> set (eachElements p' j cs) \<Longrightarrow>
      \<exists>k q. node f = p' @ (j + k) # q \<and> fragAt f (k # q) cs \<and> fragOK f"
proof (induction p n and p' j cs rule: eachElement_eachElements.induct)
  case (1 p tag attrs cs)
  from 1(2) consider (own) "tag \<notin> set nonTranslatable" "f \<in> set (eachChild p tag 0 cs)"
      | (below) "f \<in> set (eachElements p 0 cs)"
      by (auto split: if_splits)
  then show ?case
  proof cases
    case own
    from eachChild_facts[OF own(2)] obtain k where k:
      "k < length cs" "node f = p @ [0 + k]" "cs ! k = Text (originalText f)"
       "tagName f = tag" "fragOK f" by blast
    have "fragAt f (0 # [k]) [Element tag attrs cs]"
      using k own(1) by (simp add: fragAt_def)
    then show ?thesis using k(2,5) by auto
  next
    case below
    with 1 obtain k q where "node f = p @ (0 + k) # q" "fragAt f (k # q) cs" "fragOK f"
      by blast
    then show ?thesis using fragAt_down by auto
  qed
next
  case (6 p j c cs)
  from 6(3) consider (first) "f \<in> set (eachElement (p @ [j]) c)"
      | (rest) "f \<in> set (eachElements p (Suc j) cs)" by auto
  then show ?case
  proof cases
    case first
    with 6 obtain q where "node f = (p @ [j]) @ q" "fragAt f (0 # q) [c]" "fragOK f" by blast
    then have "node f = p @ (j + 0) # q \<and> fragAt f (0 # q) (c # cs) \<and> fragOK f"
      using fragAt_head by simp
    then show ?thesis by blast
  next
    case rest
    with 6 obtain k q where "node f = p @ (Suc j + k) # q" "fragAt f (k # q) cs" "fragOK f"
      by blast
    then have "node f = p @ (j + Suc k) # q \<and> fragAt f (Suc k # q) (c # cs) \<and> fragOK f"
      using fragAt_shift by simp
    then show ?thesis by blast
  qed
qed simp_all

lemma collect_facts:
  assumes "f \<in> set (collectTextNodes doc)"
  shows "fragAt f (node f) doc \<and> fragOK f"
proof -
  from assms each_facts(2)[of f "[]" 0 doc]
  obtain k q where "node f = [] @ (0 + k) # q" "fragAt f (k # q) doc" "fragOK f"
    by (auto simp: collectTextNodes_def)
  then show ?thesis by simp
qed

subsection \<open>Distinct nodes\<close>

lemma eachChild_distinct: "distinct (map node (eachChild p tag j cs))"
proof (induction cs arbitrary: j)
  case Nil
  then show ?case by simp
next
  case (Cons c cs)
  have later: "\<And>f. f \<in> set (eachChild p tag (Suc j) cs) \<Longrightarrow> node f \<noteq> p @ [j]"
  proof -
    fix f assume "f \<in> set (eachChild p tag (Suc j) cs)"
    from eachChild_facts[OF this] obtain k where "node f = p @ [Suc j + k]" by blast
    then show "node f \<noteq> p @ [j]" by simp
  qed
  have "p @ [j] \<notin> node ` set (eachChild p tag (Suc j) cs)"
  proof
    assume "p @ [j] \<in> node ` set (eachChild p tag (Suc j) cs)"
    then obtain f where "f \<in> set (eachChild p tag (Suc j) cs)" "node f = p @ [j]" by auto
    with later show False by blast
  qed
  with Cons.IH[of "Suc j"] show ?case
    by (cases c) (auto simp: Let_def)
qed

lemma each_distinct:
  "distinct (map node (eachElement p n))"
  "distinct (map node (eachElements p' j cs))"
proof (induction p n and p' j cs rule: eachElement_eachElements.induct)
  case (1 p tag attrs cs)
  have "node f \<noteq> node g"
    if "f \<in> set (eachChild p tag 0 cs)" "g \<in> set (eachElements p 0 cs)" for f g
  proof -
    from eachChild_facts[OF that(1)] obtain k where "node f = p @ [0 + k]" by blast
    moreover from each_facts(2)[OF that(2)] obtain k' q where
      "node g = p @ (0 + k') # q" "fragAt g (k' # q) cs" by blast
    moreover from this have "q \<noteq> []" using fragAt_nonempty by blast
    ultimately show ?thesis by auto
  qed
  then have "node ` set (eachChild p tag 0 cs) \<inter> node ` set (eachElements p 0 cs) = {}"
    by blast
  with 1 show ?case by (simp add: eachChild_distinct)
next
  case (6 p j c cs)
  have "node f \<noteq> node g"
    if "f \<in> set (eachElement (p @ [j]) c)" "g \<in> set (eachElements p (Suc j) cs)" for f g
  proof -
    from each_facts(1)[OF that(1)] obtain q where "node f = (p @ [j]) @ q" by blast
    moreover from each_facts(2)[OF that(2)] obtain k' q' where
      "node g = p @ (Suc j + k') # q'" by blast
    ultimately show ?thesis by auto
  qed
  then have "node ` set (eachElement (p @ [j]) c) \<inter> node ` set (eachElements p (Suc j) cs) = {}"
    by blast
  with 6 show ?case by simp
qed simp_all

lemma collect_distinct: "distinct (map node (collectTextNodes doc))"
  by (simp add: collectTextNodes_def each_distinct)

subsection \<open>The limiter returns\<close>

lemma timerDelay_pos: "1 \<le> timerDelay d"
  by (simp add: timerDelay_def)

lemma lifetimes_wait:
  assumes "reqs = filter (\<lambda>time. now - time < timeWindow L) (requests L)" "reqs \<noteq> []" "now < now'"
  shows "lifetimes (L\<lparr>requests := reqs\<rparr>) now' < lifetimes L now"
proof -
  have "sum_list (map (\<lambda>t. nat (t + timeWindow L - now')) reqs)
          < sum_list (map (\<lambda>t. nat (t + timeWindow L - now)) reqs)"
    using assms by (intro sum_list_strict_mono) auto
  also have "\<dots> = sum_list (map (\<lambda>t. nat (t + timeWindow L - now)) (requests L))"
    unfolding assms(1) by (rule sum_list_map_filter) auto
  finally show ?thesis by (simp add: lifetimes_def)
qed

lemma processQueue_total:
  assumes "0 < maxRequests L"
  shows "\<exists>L' fin res'. processQueue L now res = Some (L', fin, res') \<and>
           maxRequests L' = maxRequests L \<and> timeWindow L' = timeWindow L \<and> queue L' = [] \<and>
           length res' = length res + length (queue L)"
  using assms
proof (induction "length (queue L)" arbitrary: L now res)
  case 0
  then show ?case by (subst processQueue.simps) simp
next
  case (Suc m)
  from Suc.hyps(2) Suc.prems show ?case
  proof (induction "lifetimes L now" arbitrary: L now res rule: less_induct)
    case less
    define reqs where "reqs = filter (\<lambda>time. now - time < timeWindow L) (requests L)"
    have q: "queue L \<noteq> []" using less.prems(1) by auto
    show ?case
    proof (cases "int (length reqs) < maxRequests L")
      case True
      let ?L = "L\<lparr>requests := reqs @ [now], queue := tl (queue L)\<rparr>"
      have "m = length (queue ?L)" using less.prems(1) by simp
      moreover have "0 < maxRequests ?L" using less.prems(2) by simp
      ultimately obtain L' fin res' where
        "processQueue ?L (now + timerDelay 100) (res @ [(hd (queue L), now)]) = Some (L', fin, res')"
        "maxRequests L' = maxRequests ?L" "timeWindow L' = timeWindow ?L" "queue L' = []"
        "length res' = length (res @ [(hd (queue L), now)]) + length (queue ?L)"
        using Suc.hyps(1)[of ?L "now + timerDelay 100" "res @ [(hd (queue L), now)]"] by blast
      then show ?thesis
        using True q less.prems(1)
        by (subst processQueue.simps) (simp add: reqs_def[symmetric] Let_def)
    next
      case False
      then have ne: "reqs \<noteq> []" using less.prems(2) by auto
      then obtain oldest rest where r: "reqs = oldest # rest" by (cases reqs) auto
      let ?now = "now + timerDelay (timeWindow L - (now - oldest) + 50)"
      let ?L = "L\<lparr>requests := reqs\<rparr>"
      have "now < ?now" using timerDelay_pos[of "timeWindow L - (now - oldest) + 50"] by simp
      then have "lifetimes ?L ?now < lifetimes L now"
        using lifetimes_wait[OF reqs_def ne] by blast
      moreover have "Suc m = length (queue ?L)" "0 < maxRequests ?L"
        using less.prems by simp_all
      ultimately obtain L' fin res' where
        "processQueue ?L ?now res = Some (L', fin, res')"
        "maxRequests L' = maxRequests ?L" "timeWindow L' = timeWindow ?L" "queue L' = []"
        "length res' = length res + length (queue ?L)"
        using less.hyps[of ?L ?now res] by blast
      then show ?thesis
        using False q r
        by (subst processQueue.simps) (simp add: reqs_def[symmetric] Let_def)
    qed
  qed
qed

lemma RateLimiter_wait_eq:
  "RateLimiter_wait w =
     (case processQueue
             ((limiter w)\<lparr>queue := queue (limiter w) @ [length (queue (limiter w))],
                processing := True\<rparr>)
             (max (clock w) (loopWakes w)) [] of
        None \<Rightarrow> None
      | Some (L', finish, resolved) \<Rightarrow>
          (if resolved = [] then None
           else Some (w\<lparr>clock := snd (last resolved), limiter := L', loopWakes := finish,
                        trace := trace w @ [Acquired (snd (last resolved))]\<rparr>)))"
  by (simp add: RateLimiter_wait_def processQueue_call_def Let_def max_def split: option.splits)

lemma wait_total:
  assumes "ready w"
  shows "\<exists>w' t. RateLimiter_wait w = Some w' \<and> ready w' \<and> document w' = document w \<and>
           textNodes w' = textNodes w \<and> trace w' = trace w @ [Acquired t]"
proof -
  let ?L = "(limiter w)\<lparr>queue := queue (limiter w) @ [length (queue (limiter w))], processing := True\<rparr>"
  have "0 < maxRequests ?L" using assms by (simp add: ready_def)
  from processQueue_total[OF this, of "max (clock w) (loopWakes w)" "[]"]
  obtain L' fin res' where p: "processQueue ?L (max (clock w) (loopWakes w)) [] = Some (L', fin, res')"
    "maxRequests L' = maxRequests ?L" "length res' = length ([]::(nat \<times> int) list) + length (queue ?L)"
    by blast
  then have "res' \<noteq> []" by auto
  with p assms show ?thesis
    by (simp add: RateLimiter_wait_eq Let_def ready_def)
qed

subsection \<open>The retry loop\<close>

declare translateWithRetry_from.simps [simp del]
declare retryOutcome_from.simps [simp del]
declare attemptsMade_from.simps [simp del]

lemma retryTraceOK_last:
  "retryTraceOK index pl 1 ([Acquired t] @ staggerEvents index @ [Posted pl])"
  by (simp add: retryTraceOK_def staggerEvents_def)

lemma retryTraceOK_more:
  "retryTraceOK index pl n es \<Longrightarrow>
     retryTraceOK index pl (Suc n) ([Acquired t] @ staggerEvents index @ [Posted pl, BackedOff b] @ es)"
  by (simp add: retryTraceOK_def staggerEvents_def)

lemma retry_run:
  "ready w \<Longrightarrow>
     \<exists>w' es. translateWithRetry_from svc text' tag index maxRetries attempt w =
               Some (retryOutcome_from svc (makePayload text' tag) maxRetries attempt, w') \<and>
       ready w' \<and> document w' = document w \<and> textNodes w' = textNodes w \<and>
       trace w' = trace w @ es \<and>
       retryTraceOK index (makePayload text' tag)
         (attemptsMade_from svc (makePayload text' tag) maxRetries attempt) es"
proof (induction svc text' tag index maxRetries attempt w rule: translateWithRetry_from.induct)
  case (1 svc text' tag index maxRetries attempt w)
  let ?pl = "makePayload text' tag"
  show ?case
  proof (cases "attempt \<le> maxRetries")
    case False
    then show ?thesis
      using "1.prems"
      by (simp add: translateWithRetry_from.simps[of _ _ _ _ maxRetries attempt]
          retryOutcome_from.simps[of _ _ maxRetries attempt]
          attemptsMade_from.simps[of _ _ maxRetries attempt] retryTraceOK_def)
  next
    case True
    from wait_total[OF "1.prems"] obtain w1 t where w1:
      "RateLimiter_wait w = Some w1" "ready w1" "document w1 = document w"
      "textNodes w1 = textNodes w" "trace w1 = trace w @ [Acquired t]" by blast
    define w2 where "w2 = (if index > 0 then sleep Staggered (index * 100) w1 else w1)"
    define env where "env = svc attempt ?pl"
    define w3 where "w3 = post ?pl env w2"
    have w3: "ready w3" "document w3 = document w" "textNodes w3 = textNodes w"
      "trace w3 = trace w @ [Acquired t] @ staggerEvents index @ [Posted ?pl]"
      using w1 by (simp_all add: w3_def w2_def post_def sleep_def ready_def staggerEvents_def)
    show ?thesis
    proof (cases "attemptOutcome (reply env)")
      case (Inr v)
      then show ?thesis
        using True w1(1) w3 retryTraceOK_last[of index ?pl t]
        by (simp add: translateWithRetry_from.simps[of _ _ _ _ maxRetries attempt]
          retryOutcome_from.simps[of _ _ maxRetries attempt]
          attemptsMade_from.simps[of _ _ maxRetries attempt]
          w2_def[symmetric] env_def[symmetric] w3_def[symmetric] Let_def)
    next
      case (Inl error)
      show ?thesis
      proof (cases "attempt = maxRetries")
        case same: True
        then have same': "(attempt = maxRetries) = True" by simp
        have "translateWithRetry_from svc text' tag index maxRetries attempt w =
                Some (Inl (Error (''All retries failed: '' @ message error)), w3)"
          using True Inl w1(1)
          by (subst translateWithRetry_from.simps)
            (simp add: w2_def[symmetric] env_def[symmetric] w3_def[symmetric] Let_def same')
        moreover have "retryOutcome_from svc ?pl maxRetries attempt =
                Inl (Error (''All retries failed: '' @ message error))"
          using True Inl
          by (subst retryOutcome_from.simps) (simp add: env_def[symmetric] same')
        moreover have "attemptsMade_from svc ?pl maxRetries attempt = 1"
          using True Inl
          by (subst attemptsMade_from.simps) (simp add: env_def[symmetric] same')
        ultimately show ?thesis
          using w3 retryTraceOK_last[of index ?pl t] by simp
      next
        case False
        define w4 where "w4 = sleep BackedOff (2 ^ attempt * 1000 + int (jitter env)) w3"
        have w4: "ready w4" "document w4 = document w" "textNodes w4 = textNodes w"
          "trace w4 = trace w @ [Acquired t] @ staggerEvents index @
             [Posted ?pl, BackedOff (2 ^ attempt * 1000 + int (jitter env))]"
          using w3 by (simp_all add: w4_def sleep_def ready_def)
        from "1.IH"[OF True w1(1) w2_def refl env_def w3_def Inl False, folded w4_def, OF w4(1)]
        obtain w' es where r:
          "translateWithRetry_from svc text' tag index maxRetries (Suc attempt) w4 =
             Some (retryOutcome_from svc ?pl maxRetries (Suc attempt), w')"
          "ready w'" "document w' = document w4" "textNodes w' = textNodes w4"
          "trace w' = trace w4 @ es"
          "retryTraceOK index ?pl (attemptsMade_from svc ?pl maxRetries (Suc attempt)) es"
          by blast
        have "trace w' = trace w @ ([Acquired t] @ staggerEvents index @
             [Posted ?pl, BackedOff (2 ^ attempt * 1000 + int (jitter env))] @ es)"
          using r(5) w4(4) by simp
        moreover note retryTraceOK_more[OF r(6), of t "2 ^ attempt * 1000 + int (jitter env)"]
        ultimately show ?thesis
          using True Inl False w1(1) r(1-4) w4(2,3)
          by (simp add: translateWithRetry_from.simps[of _ _ _ _ maxRetries attempt]
            retryOutcome_from.simps[of _ _ maxRetries attempt]
            attemptsMade_from.simps[of _ _ maxRetries attempt]
            w2_def[symmetric] env_def[symmetric] w3_def[symmetric] w4_def[symmetric] Let_def)
      qed
    qed
  qed
qed

subsection \<open>The batch\<close>

lemma thenCatch_newData:
  "thenCatch item outcome doc =
     (case newData item outcome of None \<Rightarrow> doc | Some v \<Rightarrow> setData (node item) v doc)"
  by (auto simp: thenCatch_def newData_def writeTranslation_def
      split: sum.splits jsval.splits)

lemma getData_thenCatch_other:
  "q \<noteq> node item \<Longrightarrow> getData q (thenCatch item outcome doc) = getData q doc"
  by (simp add: thenCatch_newData getData_setData split: option.splits)

lemma getData_thenCatch_same:
  "getData (node item) doc = Some (originalText item) \<Longrightarrow>
     getData (node item) (thenCatch item outcome doc) = Some (textAfter item outcome)"
  by (simp add: thenCatch_newData getData_setData textAfter_def split: option.splits)

lemma batch_run:
  "ready w \<Longrightarrow>
     \<exists>w' es. processBatchSequential_from svcs i items w = Some (Inr (), w') \<and>
       ready w' \<and> textNodes w' = textNodes w \<and>
       document w' = applyItems svcs i items (document w) \<and>
       trace w' = trace w @ es \<and> filter isProcessingItem es = [] \<and>
       filter isPosted es = postsOf svcs i items"
proof (induction items arbitrary: i w)
  case Nil
  then show ?case by simp
next
  case (Cons item rest)
  from wait_total[OF Cons.prems] obtain w1 t where w1:
    "RateLimiter_wait w = Some w1" "ready w1" "document w1 = document w"
    "textNodes w1 = textNodes w" "trace w1 = trace w @ [Acquired t]" by blast
  from retry_run[OF w1(2), of "svcs i" "trimmedText item" "tagName item" "int i" defaultMaxRetries 1]
  obtain w2 es2 where w2:
    "translateWithRetry (svcs i) (trimmedText item) (tagName item) (int i) defaultMaxRetries w1
       = Some (itemOutcome (svcs i) item, w2)"
    "ready w2" "document w2 = document w1" "textNodes w2 = textNodes w1"
    "trace w2 = trace w1 @ es2"
    "retryTraceOK (int i) (itemPayload item) (itemAttempts (svcs i) item) es2"
    by (auto simp: translateWithRetry_def itemOutcome_def itemPayload_def itemAttempts_def)
  define w3 where "w3 = w2\<lparr>document := thenCatch item (itemOutcome (svcs i) item) (document w2)\<rparr>"
  have w3: "ready w3" "textNodes w3 = textNodes w"
     "document w3 = thenCatch item (itemOutcome (svcs i) item) (document w)"
     "trace w3 = trace w @ [Acquired t] @ es2"
    using w1 w2 by (simp_all add: w3_def ready_def)
  have step: "processBatchSequential_from svcs i (item # rest) w =
                processBatchSequential_from svcs (Suc i) rest w3"
    using w1(1) w2(1)
    by (cases "itemOutcome (svcs i) item")
      (auto simp: w3_def thenCatch_def split: sum.splits)
  from Cons.IH[OF w3(1), of "Suc i"] obtain w' es where r:
    "processBatchSequential_from svcs (Suc i) rest w3 = Some (Inr (), w')"
    "ready w'" "textNodes w' = textNodes w3"
    "document w' = applyItems svcs (Suc i) rest (document w3)"
    "trace w' = trace w3 @ es" "filter isProcessingItem es = []"
    "filter isPosted es = postsOf svcs (Suc i) rest" by blast
  have "filter isPosted es2 = replicate (itemAttempts (svcs i) item) (Posted (itemPayload item))"
    using w2(6) by (simp add: retryTraceOK_def)
  moreover have "filter isProcessingItem es2 = []" using w2(6) by (simp add: retryTraceOK_def)
  moreover have "trace w' = trace w @ ([Acquired t] @ es2 @ es)" using r(5) w3(4) by simp
  ultimately show ?case
    using step r w3 by (intro exI[of _ w'] exI[of _ "[Acquired t] @ es2 @ es"]) auto
qed

subsection \<open>The sequence\<close>

declare processSequentialTranslation_from.simps [simp del]

lemma take_batch: "i < length nodes \<Longrightarrow> take BATCH_SIZE (drop i nodes) = [nodes ! i]"
  by (simp add: BATCH_SIZE_def take_Suc_conv_app_nth)

lemma filter_or_none: "filter P es = [] \<Longrightarrow> filter (\<lambda>e. P e \<or> Q e) es = filter Q es"
  by (induction es) (auto split: if_splits)

lemma seq_run:
  "ready w \<Longrightarrow>
     \<exists>w' es c. processSequentialTranslation_from svcs nodes i counts w = Some (c, w') \<and>
       ready w' \<and> textNodes w' = textNodes w \<and>
       document w' = foldl (applyAt svcs nodes) (document w) [i..<length nodes] \<and>
       trace w' = trace w @ es \<and>
       filter (\<lambda>e. isProcessingItem e \<or> isPosted e) es = dispatchLog svcs nodes i"
proof (induction "length nodes - i" arbitrary: i counts w)
  case 0
  then show ?case
    by (subst processSequentialTranslation_from.simps) (simp add: dispatchLog_def)
next
  case (Suc m)
  then have i: "i < length nodes" by simp
  define w0 where "w0 = w\<lparr>trace := trace w @ [ProcessingItem i]\<rparr>"
  have "ready w0" using Suc.prems by (simp add: w0_def ready_def)
  from batch_run[OF this, of "\<lambda>k. svcs (i + k)" 0 "[nodes ! i]"]
  obtain w1 es1 where w1:
    "processBatchSequential (\<lambda>k. svcs (i + k)) [nodes ! i] w0 = Some (Inr (), w1)"
    "ready w1" "textNodes w1 = textNodes w0"
    "document w1 = applyAt svcs nodes (document w0) i"
    "trace w1 = trace w0 @ es1" "filter isProcessingItem es1 = []"
    "filter isPosted es1 = replicate (itemAttempts (svcs i) (nodes ! i)) (Posted (itemPayload (nodes ! i)))"
    by (auto simp: processBatchSequential_def applyAt_def)
  define pause where "pause = (if i + BATCH_SIZE < length nodes then [Paused DELAY_BETWEEN_REQUESTS] else [])"
  define w2 where "w2 = (if i + BATCH_SIZE < length nodes then sleep Paused DELAY_BETWEEN_REQUESTS w1 else w1)"
  have w2: "ready w2" "textNodes w2 = textNodes w" "document w2 = applyAt svcs nodes (document w) i"
    "trace w2 = trace w @ [ProcessingItem i] @ es1 @ pause"
    using w1 by (simp_all add: w2_def w0_def sleep_def ready_def pause_def)
  have step: "processSequentialTranslation_from svcs nodes i counts w =
     processSequentialTranslation_from svcs nodes (Suc i) (fst counts + 1, snd counts) w2"
    using i w1(1)
    by (subst processSequentialTranslation_from.simps)
      (simp add: take_batch w0_def[symmetric] w2_def[symmetric] Let_def, simp add: BATCH_SIZE_def)
  have "m = length nodes - Suc i" using Suc.hyps(2) by simp
  from Suc.hyps(1)[OF this w2(1), of "(fst counts + 1, snd counts)"]
  obtain w' es c where r:
    "processSequentialTranslation_from svcs nodes (Suc i) (fst counts + 1, snd counts) w2 = Some (c, w')"
    "ready w'" "textNodes w' = textNodes w2"
    "document w' = foldl (applyAt svcs nodes) (document w2) [Suc i..<length nodes]"
    "trace w' = trace w2 @ es"
    "filter (\<lambda>e. isProcessingItem e \<or> isPosted e) es = dispatchLog svcs nodes (Suc i)" by blast
  have u: "[i..<length nodes] = i # [Suc i..<length nodes]" using i by (simp add: upt_conv_Cons)
  have "filter (\<lambda>e. isProcessingItem e \<or> isPosted e) es1 = filter isPosted es1"
    using w1(6) by (rule filter_or_none)
  then have f: "filter (\<lambda>e. isProcessingItem e \<or> isPosted e) ([ProcessingItem i] @ es1 @ pause @ es)
      = dispatchLog svcs nodes i"
    using w1(7) r(6) by (simp add: pause_def u dispatchLog_def itemLog_def)
  have t: "trace w' = trace w @ ([ProcessingItem i] @ es1 @ pause @ es)"
    using r(5) w2(4) by simp
  have d: "document w' = foldl (applyAt svcs nodes) (document w) [i..<length nodes]"
    using r(4) w2(3) by (simp add: u)
  have n: "textNodes w' = textNodes w" using r(3) w2(2) by simp
  show ?case
    unfolding step
    by (rule exI[of _ w'], rule exI[of _ "[ProcessingItem i] @ es1 @ pause @ es"], rule exI[of _ c])
      (intro conjI r(1) r(2) n d t f)
qed

lemma getData_foldl_other:
  "\<forall>k\<in>set ks. node (nodes ! k) \<noteq> q \<Longrightarrow>
     getData q (foldl (applyAt svcs nodes) doc ks) = getData q doc"
  by (induction ks arbitrary: doc) (auto simp: applyAt_def getData_thenCatch_other)

lemma getData_foldl_same:
  "distinct ks \<Longrightarrow> j \<in> set ks \<Longrightarrow>
   \<forall>k\<in>set ks. k \<noteq> j \<longrightarrow> node (nodes ! k) \<noteq> node (nodes ! j) \<Longrightarrow>
   getData (node (nodes ! j)) doc = Some (originalText (nodes ! j)) \<Longrightarrow>
     getData (node (nodes ! j)) (foldl (applyAt svcs nodes) doc ks) =
       Some (textAfter (nodes ! j) (itemOutcome (svcs j) (nodes ! j)))"
proof (induction ks arbitrary: doc)
  case Nil
  then show ?case by simp
next
  case (Cons k ks)
  show ?case
  proof (cases "k = j")
    case True
    then have "\<forall>k\<in>set ks. node (nodes ! k) \<noteq> node (nodes ! j)"
      using Cons.prems(1,3) by auto
    then have "getData (node (nodes ! j)) (foldl (applyAt svcs nodes) (applyAt svcs nodes doc k) ks) =
        getData (node (nodes ! j)) (applyAt svcs nodes doc k)"
      by (rule getData_foldl_other)
    also have "\<dots> = Some (textAfter (nodes ! j) (itemOutcome (svcs j) (nodes ! j)))"
      using True Cons.prems(4) by (simp add: applyAt_def getData_thenCatch_same)
    finally show ?thesis by simp
  next
    case False
    then have "node (nodes ! j) \<noteq> node (nodes ! k)"
      using Cons.prems(3) by auto
    then have "getData (node (nodes ! j)) (applyAt svcs nodes doc k) = Some (originalText (nodes ! j))"
      using Cons.prems(4) by (simp add: applyAt_def getData_thenCatch_other)
    with Cons.IH[of "applyAt svcs nodes doc k"] Cons.prems False show ?thesis by simp
  qed
qed

lemma foldl_unchanged:
  "\<forall>k\<in>set ks. applyAt svcs nodes doc k = doc \<Longrightarrow> foldl (applyAt svcs nodes) doc ks = doc"
  by (induction ks) auto

lemma sorted_nodes:
  "set (sortByPriority xs) = set xs" "length (sortByPriority xs) = length xs"
  "distinct (map node xs) \<Longrightarrow> distinct (map node (sortByPriority xs))"
proof -
  show "set (sortByPriority xs) = set xs" "length (sortByPriority xs) = length xs"
    by (simp_all add: sortByPriority_def)
  assume "distinct (map node xs)"
  then show "distinct (map node (sortByPriority xs))"
    by (simp add: sortByPriority_def distinct_map)
qed

lemma translate_run:
  assumes "ready w" "collectTextNodes (load h) \<noteq> []"
  defines "nodes \<equiv> sortByPriority (collectTextNodes (load h))"
  shows "\<exists>w' es. translateHtmlStructureOptimized load html svcs h w = Some (html (document w'), w') \<and>
       textNodes w' = nodes \<and>
       document w' = foldl (applyAt svcs nodes) (load h) [0..<length nodes] \<and>
       trace w' = trace w @ es \<and>
       filter (\<lambda>e. isProcessingItem e \<or> isPosted e) es = dispatchLog svcs nodes 0"
proof -
  define w3 where "w3 = w\<lparr>document := load h, textNodes := nodes\<rparr>"
  have "ready w3" using assms(1) by (simp add: w3_def ready_def)
  from seq_run[OF this, of svcs nodes 0 "(0, 0)"] obtain w' es c where r:
    "processSequentialTranslation svcs nodes w3 = Some (c, w')"
    "textNodes w' = textNodes w3"
    "document w' = foldl (applyAt svcs nodes) (document w3) [0..<length nodes]"
    "trace w' = trace w3 @ es"
    "filter (\<lambda>e. isProcessingItem e \<or> isPosted e) es = dispatchLog svcs nodes 0"
    by (auto simp: processSequentialTranslation_def)
  have "translateHtmlStructureOptimized load html svcs h w = Some (html (document w'), w')"
    using assms(2) r(1)
    by (simp add: translateHtmlStructureOptimized_def Let_def w3_def nodes_def)
  with r show ?thesis by (auto simp: w3_def)
qed

subsection \<open>A limiter that can never admit\<close>

lemma processQueue_starved_aux:
  assumes "processQueue L now res = Some r"
  shows "\<not> (maxRequests L \<le> 0 \<and> queue L \<noteq> [])"
  using assms
proof (induction rule: processQueue.raw_induct[rotated 1, consumes 1, case_names step])
  case (step pq L now res r)
  show ?case
  proof
    assume a: "maxRequests L \<le> 0 \<and> queue L \<noteq> []"
    define reqs where "reqs = filter (\<lambda>time. now - time < timeWindow L) (requests L)"
    have "\<not> int (length reqs) < maxRequests L" using a by simp
    with a step(2) obtain now' where "pq (L\<lparr>requests := reqs\<rparr>) now' res = Some r"
      by (simp add: Let_def reqs_def[symmetric])
    from step(1)[OF this] a show False by simp
  qed
qed

lemma processQueue_starved:
  "maxRequests L \<le> 0 \<Longrightarrow> queue L \<noteq> [] \<Longrightarrow> processQueue L now res = None"
  using processQueue_starved_aux[of L now res] by (cases "processQueue L now res") auto

subsection \<open>Evaluating the examples\<close>

lemmas extraction_defs = collectTextNodes_def nonTranslatable_def priorityOf_def toLowerCase_def
  trim_def isWhiteSpace_def isOnlyNumbers_def removeDotsAndCommas_def testDigitsOnly_def
  isDigit_def js_def Let_def page_def

lemma first_variant_five_callers:
  "processQueue ((RateLimiter_fields 3 1500)\<lparr>queue := [1, 2, 3, 4, 5], processing := True\<rparr>) 0 [] =
     Some (\<lparr>maxRequests = 3, timeWindow = 1500, requests = [200, 1550, 1650], queue = [],
             processing = False\<rparr>,
           1750, [(1, 0), (2, 100), (3, 200), (4, 1550), (5, 1650)])"
  by (simp add: processQueue.simps RateLimiter_fields_def timerDelay_def Let_def)

subsection \<open>How a retry loop settles\<close>




lemma retryOutcome_all_fail:
  "a \<le> m \<Longrightarrow> \<forall>k. a \<le> k \<and> k \<le> m \<longrightarrow> isl (attemptOutcome (reply (svc k pl))) \<Longrightarrow>
     retryOutcome_from svc pl m a =
       Inl (Error (''All retries failed: '' @ message (projl (attemptOutcome (reply (svc m pl))))))
     \<and> attemptsMade_from svc pl m a = Suc m - a"
proof (induction svc pl m a rule: retryOutcome_from.induct)
  case (1 svc pl m a)
  from "1.prems" obtain e where e: "attemptOutcome (reply (svc a pl)) = Inl e"
    by (cases "attemptOutcome (reply (svc a pl))") auto
  show ?case
  proof (cases "a = m")
    case True
    then have t: "(a = m) = True" by simp
    show ?thesis
      using e "1.prems"(1)
      by (subst retryOutcome_from.simps, subst attemptsMade_from.simps) (simp add: t, simp add: True)
  next
    case False
    with "1.prems" have "Suc a \<le> m" by simp
    moreover have "\<forall>k. Suc a \<le> k \<and> k \<le> m \<longrightarrow> isl (attemptOutcome (reply (svc k pl)))"
      using "1.prems"(2) by auto
    ultimately have "retryOutcome_from svc pl m (Suc a) =
       Inl (Error (''All retries failed: '' @ message (projl (attemptOutcome (reply (svc m pl))))))
     \<and> attemptsMade_from svc pl m (Suc a) = Suc m - Suc a"
      using "1.IH"[OF "1.prems"(1) e False] by blast
    then show ?thesis
      using e False "1.prems"(1)
      by (subst retryOutcome_from.simps, subst attemptsMade_from.simps) auto
  qed
qed



lemma new_events: "trace w' = trace w @ es \<Longrightarrow> drop (length (trace w)) (trace w') = es"
  by simp

lemma translationWorld_ready: "0 < maxRequests (limiter translationWorld)"
  by (simp add: translationWorld_def RateLimiter_fields_def)

lemmas run_defs = translateWithRetry_def translateWithRetry_from.simps RateLimiter_wait_eq
  processQueue.simps sleep_def post_def timerDelay_def makePayload_def getContextHint_def
  translationWorld_def RateLimiter_fields_def defaultMaxRetries_def toLowerCase_def js_def Let_def

subsection \<open>The sort\<close>



lemma sorted_set: "f \<in> set (sortByPriority xs) \<longleftrightarrow> f \<in> set xs"
  by (simp add: sortByPriority_def)

subsection \<open>An echoing service\<close>

lemma trim_idem: "trim (trim s) = trim s"
proof (cases "trim s = []")
  case True
  have "trim [] = []" by (simp add: trim_def)
  with True show ?thesis by simp
next
  case False
  define u where "u = dropWhile isWhiteSpace s"
  have t: "trim s = rev (dropWhile isWhiteSpace (rev u))" by (simp add: trim_def u_def)
  have "dropWhile isWhiteSpace (trim s) = trim s"
    using trim_hd[OF False] False by (simp add: dropWhile_eq_self_iff)
  then have "trim (trim s) = rev (dropWhile isWhiteSpace (rev (trim s)))"
    by (simp add: trim_def)
  also have "\<dots> = rev (dropWhile isWhiteSpace (dropWhile isWhiteSpace (rev u)))"
    by (simp add: t)
  also have "\<dots> = trim s" by (simp add: t)
  finally show ?thesis .
qed

lemma echo_outcome:
  assumes "reply (svc 1 (itemPayload f)) = Response (JStr (trimmedText f))" "trimmedText f \<noteq> []"
  shows "itemOutcome svc f = Inr (JStr (trimmedText f))"
  unfolding itemOutcome_def
  using assms by (subst retryOutcome_from.simps) (simp add: defaultMaxRetries_def)

lemma echo_keeps_node:
  assumes "reply (svc 1 (itemPayload f)) = Response (JStr (trimmedText f))"
    "fragOK f" "getData (node f) doc = Some (originalText f)"
    "\<not> hasReplacementPattern (trimmedText f)"
  shows "thenCatch f (itemOutcome svc f) doc = doc"
proof -
  have ne: "trim (originalText f) \<noteq> []" "trimmedText f = trim (originalText f)"
    using assms(2) by (auto simp: fragOK_def)
  then have o: "itemOutcome svc f = Inr (JStr (trim (originalText f)))"
    using echo_outcome[where svc = svc and f = f, OF assms(1)] by simp
  have "newData f (itemOutcome svc f) = Some (originalText f)"
    using ne assms(4) by (simp add: o newData_def trim_idem String_replace_echo)
  then show ?thesis
    using assms(3) by (simp add: thenCatch_newData setData_same)
qed

subsection \<open>The text of every node after a run\<close>

lemma itemOutcome_all_fail:
  assumes "\<forall>k\<in>{1..defaultMaxRetries}. isl (attemptOutcome (reply (svc k (itemPayload f))))"
  shows "isl (itemOutcome svc f)"
proof -
  have "1 \<le> defaultMaxRetries" by (simp add: defaultMaxRetries_def)
  moreover have "\<forall>k. 1 \<le> k \<and> k \<le> defaultMaxRetries \<longrightarrow>
      isl (attemptOutcome (reply (svc k (itemPayload f))))"
    using assms by auto
  ultimately show ?thesis
    unfolding itemOutcome_def
    using retryOutcome_all_fail[of 1 defaultMaxRetries svc "itemPayload f"] by simp
qed

lemma textAfter_failed: "isl outcome \<Longrightarrow> textAfter f outcome = originalText f"
  by (cases outcome) (simp_all add: textAfter_def newData_def)

lemma final_texts:
  assumes "nodes = sortByPriority (collectTextNodes doc)"
  shows "i < length nodes \<Longrightarrow>
           getData (node (nodes ! i)) (foldl (applyAt svcs nodes) doc [0..<length nodes]) =
             Some (textAfter (nodes ! i) (itemOutcome (svcs i) (nodes ! i)))"
    and "q \<notin> node ` set (collectTextNodes doc) \<Longrightarrow>
           getData q (foldl (applyAt svcs nodes) doc [0..<length nodes]) = getData q doc"
proof -
  have d: "distinct (map node nodes)"
    unfolding assms by (rule sorted_nodes(3)[OF collect_distinct])
  have s: "set nodes = set (collectTextNodes doc)" unfolding assms by (rule sorted_nodes(1))
  have mem: "nodes ! k \<in> set (collectTextNodes doc)" if "k < length nodes" for k
  proof -
    from that have "nodes ! k \<in> set nodes" by (rule nth_mem)
    then show ?thesis unfolding s .
  qed
  {
    assume i: "i < length nodes"
    from collect_facts[OF mem[OF i]]
    have g: "getData (node (nodes ! i)) doc = Some (originalText (nodes ! i))"
      by (simp add: fragAt_def)
    have inj: "\<forall>k\<in>set [0..<length nodes]. k \<noteq> i \<longrightarrow> node (nodes ! k) \<noteq> node (nodes ! i)"
    proof (intro ballI impI)
      fix k assume k: "k \<in> set [0..<length nodes]" and ki: "k \<noteq> i"
      from k have k': "k < length nodes" by simp
      have "map node nodes ! k \<noteq> map node nodes ! i"
        using nth_eq_iff_index_eq[OF d, of k i] k' i ki by simp
      then show "node (nodes ! k) \<noteq> node (nodes ! i)"
        using k' i by simp
    qed
    have dist: "distinct [0..<length nodes]" by simp
    have ii: "i \<in> set [0..<length nodes]" using i by simp
    show "getData (node (nodes ! i)) (foldl (applyAt svcs nodes) doc [0..<length nodes]) =
             Some (textAfter (nodes ! i) (itemOutcome (svcs i) (nodes ! i)))"
      by (rule getData_foldl_same[OF dist ii inj g])
  }
  {
    assume q: "q \<notin> node ` set (collectTextNodes doc)"
    have "\<forall>k\<in>set [0..<length nodes]. node (nodes ! k) \<noteq> q"
    proof
      fix k assume "k \<in> set [0..<length nodes]"
      then have "k < length nodes" by simp
      from mem[OF this] q show "node (nodes ! k) \<noteq> q" by blast
    qed
    then show "getData q (foldl (applyAt svcs nodes) doc [0..<length nodes]) = getData q doc"
      by (rule getData_foldl_other)
  }
qed

subsection \<open>What is not extracted\<close>

lemma digits_only: "digitsWithSeparators s \<Longrightarrow> isOnlyNumbers s"
proof -
  assume a: "digitsWithSeparators s"
  have d: "isDigit c \<Longrightarrow> c \<noteq> 0x2E \<and> c \<noteq> 0x2C" for c
    by (auto simp: isDigit_def)
  from a obtain c where "c \<in> set s" "isDigit c"
    by (auto simp: digitsWithSeparators_def list_ex_iff)
  with d have "c \<in> set (removeDotsAndCommas s)" by (simp add: removeDotsAndCommas_def)
  then have "removeDotsAndCommas s \<noteq> []" by auto
  moreover have "list_all isDigit (removeDotsAndCommas s)"
    using a by (auto simp: digitsWithSeparators_def removeDotsAndCommas_def list_all_iff)
  ultimately show ?thesis by (simp add: isOnlyNumbers_def testDigitsOnly_def)
qed

lemma excluded_not_collected:
  assumes "getData q doc = Some d"
    and "(\<exists>t\<in>set nonTranslatable. getTagName (butlast q) doc = Some t) \<or>
         length (trim d) \<le> 1 \<or> digitsWithSeparators (trim d)"
  shows "q \<notin> node ` set (collectTextNodes doc)"
proof
  assume "q \<in> node ` set (collectTextNodes doc)"
  then obtain f where f: "f \<in> set (collectTextNodes doc)" "q = node f" by auto
  from collect_facts[OF f(1)] f(2) assms(1)
  have "originalText f = d" "getTagName (butlast q) doc = Some (tagName f)"
    "tagName f \<notin> set nonTranslatable" "1 < length (trim d)" "\<not> isOnlyNumbers (trim d)"
    by (auto simp: fragAt_def fragOK_def)
  with assms(2) digits_only[of "trim d"] show False by auto
qed

lemma posted_texts:
  assumes "filter (\<lambda>e. isProcessingItem e \<or> isPosted e) es = dispatchLog svcs nodes 0"
    "Posted pl \<in> set es"
  shows "\<exists>f\<in>set nodes. pl = itemPayload f"
proof -
  from assms(2) have "Posted pl \<in> set (filter (\<lambda>e. isProcessingItem e \<or> isPosted e) es)" by simp
  then have "Posted pl \<in> set (dispatchLog svcs nodes 0)" using assms(1) by simp
  then obtain k where "k < length nodes" "Posted pl \<in> set (itemLog svcs nodes k)"
    by (auto simp: dispatchLog_def)
  then have "pl = itemPayload (nodes ! k)" "nodes ! k \<in> set nodes"
    by (auto simp: itemLog_def)
  then show ?thesis by blast
qed

subsection \<open>The examples, evaluated\<close>

lemmas pipeline_defs = translateHtmlStructureOptimized_def processSequentialTranslation_def
  processSequentialTranslation_from.simps processBatchSequential_def
  BATCH_SIZE_def DELAY_BETWEEN_REQUESTS_def writeTranslation_def String_replace_def
  sortByPriority_def

lemma sampleDoc_nodes:
  "map node (collectTextNodes sampleDoc) = [[0, 1, 0, 0], [0, 1, 0, 1, 0], [0, 1, 1, 0]]"
  "map node (sortByPriority (collectTextNodes sampleDoc)) = [[0, 1, 1, 0], [0, 1, 0, 1, 0], [0, 1, 0, 0]]"
  by (simp_all add: sampleDoc_def extraction_defs sortByPriority_def)

lemma echoService_echoes: "\<forall>i k pl. reply (echoService k pl) = Response (JStr (p_text pl))"
  by (simp add: echoService_def)

lemma sampleDoc_plain:
  "list_all (\<lambda>f. \<not> hasReplacementPattern (trimmedText f)) (collectTextNodes sampleDoc)"
  by (simp add: sampleDoc_def extraction_defs)

lemma sampleDoc_sorted:
  "sortByPriority (collectTextNodes sampleDoc) =
     [\<lparr>node = [0, 1, 1, 0], originalText = js ''Title'', trimmedText = js ''Title'',
        priority = 5, tagName = js ''h1''\<rparr>,
      \<lparr>node = [0, 1, 0, 1, 0], originalText = js ''now'', trimmedText = js ''now'',
        priority = 2, tagName = js ''b''\<rparr>,
      \<lparr>node = [0, 1, 0, 0], originalText = js '' Hello world '', trimmedText = js ''Hello world'',
        priority = 0, tagName = js ''p''\<rparr>]"
  by (simp add: sampleDoc_def extraction_defs sortByPriority_def)

lemma downForItem1_fails:
  "\<forall>k\<in>{1..defaultMaxRetries}. isl (attemptOutcome (reply (downForItem1 1 k pl)))"
  by (simp add: downForItem1_def)

lemma downForItem1_outcomes:
  "textAfter \<lparr>node = [0, 1, 1, 0], originalText = js ''Title'', trimmedText = js ''Title'',
        priority = 5, tagName = js ''h1''\<rparr>
     (itemOutcome (downForItem1 0)
        \<lparr>node = [0, 1, 1, 0], originalText = js ''Title'', trimmedText = js ''Title'',
          priority = 5, tagName = js ''h1''\<rparr>) = js ''pa:Title''"
  "textAfter \<lparr>node = [0, 1, 0, 0], originalText = js '' Hello world '', trimmedText = js ''Hello world'',
        priority = 0, tagName = js ''p''\<rparr>
     (itemOutcome (downForItem1 2)
        \<lparr>node = [0, 1, 0, 0], originalText = js '' Hello world '', trimmedText = js ''Hello world'',
          priority = 0, tagName = js ''p''\<rparr>) = js '' pa:Hello world ''"
  by (simp_all add: textAfter_def newData_def itemOutcome_def itemPayload_def makePayload_def
      retryOutcome_from.simps defaultMaxRetries_def downForItem1_def String_replace_def
      trim_def isWhiteSpace_def js_def)

lemma sampleDoc_number:
  "getData [0, 1, 2, 0] sampleDoc = Some (js ''3,14'')"
  "digitsWithSeparators (trim (js ''3,14''))"
  by (simp_all add: sampleDoc_def digitsWithSeparators_def trim_def isWhiteSpace_def isDigit_def
      js_def)

lemma processQueue_window:
  assumes "processQueue L now res = Some r" "0 < timeWindow L"
  shows "(queue L = [] \<longrightarrow> r = (L\<lparr>processing := False\<rparr>, now, res)) \<and>
         (queue L \<noteq> [] \<longrightarrow>
            snd (snd r) \<noteq> [] \<and>
            int (length (requests (fst r))) \<le> maxRequests L \<and>
            (\<forall>t\<in>set (requests (fst r)). snd (last (snd (snd r))) - t < timeWindow L))"
  using assms
proof (induction rule: processQueue.raw_induct[rotated 1, consumes 1, case_names step])
  case (step pq L now res r)
  define reqs where "reqs = filter (\<lambda>time. now - time < timeWindow L) (requests L)"
  show ?case
  proof (cases "queue L = []")
    case True
    with step(2) show ?thesis by simp
  next
    case False
    show ?thesis
    proof (cases "int (length reqs) < maxRequests L")
      case admit: True
      define L1 where "L1 = L\<lparr>requests := reqs @ [now], queue := tl (queue L)\<rparr>"
      define res1 where "res1 = res @ [(hd (queue L), now)]"
      from step(2) False admit have run: "pq L1 (now + timerDelay 100) res1 = Some r"
        by (simp add: Let_def reqs_def[symmetric] L1_def res1_def)
      have w: "0 < timeWindow L1" using step(3) by (simp add: L1_def)
      note ih = step(1)[OF run w]
      show ?thesis
      proof (cases "queue L1 = []")
        case True
        with ih have r: "r = (L1\<lparr>processing := False\<rparr>, now + timerDelay 100, res1)" by simp
        have "\<forall>t\<in>set (reqs @ [now]). now - t < timeWindow L"
          using step(3) by (auto simp: reqs_def)
        then show ?thesis
          using False admit by (simp add: r L1_def res1_def)
      next
        case q: False
        with ih show ?thesis using False by (simp add: L1_def)
      qed
    next
      case wait: False
      define L1 where "L1 = L\<lparr>requests := reqs\<rparr>"
      from step(2) False wait obtain now' where run: "pq L1 now' res = Some r"
        by (simp add: Let_def reqs_def[symmetric] L1_def)
      have w: "0 < timeWindow L1" using step(3) by (simp add: L1_def)
      from step(1)[OF run w] False show ?thesis by (simp add: L1_def)
    qed
  qed
qed

subsection \<open>The stagger\<close>

declare translateWithRetry2_from.simps [simp del]

lemma wait_trace:
  "RateLimiter_wait w = Some w1 \<Longrightarrow> \<exists>t. trace w1 = trace w @ [Acquired t]"
  by (auto simp: RateLimiter_wait_eq split: option.splits if_splits)

lemma retry_rounds:
  "0 < index \<Longrightarrow> translateWithRetry_from svc text' tag index maxRetries attempt w = Some (r, w') \<Longrightarrow>
     \<exists>es. trace w' = trace w @ es \<and> staggerRounds (index * 100) es"
proof (induction svc text' tag index maxRetries attempt w rule: translateWithRetry_from.induct)
  case (1 svc text' tag index maxRetries attempt w)
  let ?pl = "makePayload text' tag"
  show ?case
  proof (cases "attempt \<le> maxRetries")
    case False
    with "1.prems"(2) have "w' = w"
      by (subst (asm) translateWithRetry_from.simps) simp
    then show ?thesis by simp
  next
    case le: True
    from "1.prems"(2) le obtain w1 where w1: "RateLimiter_wait w = Some w1"
      by (subst (asm) translateWithRetry_from.simps) (auto split: option.splits)
    from wait_trace[OF w1] obtain t where t: "trace w1 = trace w @ [Acquired t]" by blast
    define w2 where "w2 = sleep Staggered (index * 100) w1"
    define w3 where "w3 = post ?pl (svc attempt ?pl) w2"
    have t3: "trace w3 = trace w @ [Acquired t, Staggered (index * 100), Posted ?pl]"
      by (simp add: w3_def w2_def post_def sleep_def t)
    show ?thesis
    proof (cases "attemptOutcome (reply (svc attempt ?pl))")
      case (Inr v)
      with "1.prems" le w1 have "w' = w3"
        by (subst (asm) translateWithRetry_from.simps) (simp add: Let_def w3_def w2_def)
      with t3 show ?thesis by simp
    next
      case (Inl e)
      show ?thesis
      proof (cases "attempt = maxRetries")
        case True
        with "1.prems" le w1 Inl have "w' = w3"
          by (subst (asm) translateWithRetry_from.simps) (simp add: Let_def w3_def w2_def)
        with t3 show ?thesis by simp
      next
        case False
        define b where "b = 2 ^ attempt * 1000 + int (jitter (svc attempt ?pl))"
        define w4 where "w4 = sleep BackedOff b w3"
        from "1.prems" le w1 Inl False have run:
          "translateWithRetry_from svc text' tag index maxRetries (Suc attempt) w4 = Some (r, w')"
          by (subst (asm) translateWithRetry_from.simps) (simp add: Let_def w4_def b_def w3_def w2_def)
        have ih: "\<exists>es. trace w' = trace w4 @ es \<and> staggerRounds (index * 100) es"
          using "1.IH"[OF le w1 refl refl refl refl Inl False "1.prems"(1)] "1.prems"(1) run
          by (simp add: w4_def b_def w3_def w2_def)
        then obtain es where es: "trace w' = trace w4 @ es" "staggerRounds (index * 100) es" by blast
        have "trace w4 = trace w @ [Acquired t, Staggered (index * 100), Posted ?pl, BackedOff b]"
          by (simp add: w4_def sleep_def t3)
        with es have "trace w' = trace w @ ([Acquired t, Staggered (index * 100), Posted ?pl, BackedOff b] @ es)"
          "staggerRounds (index * 100) ([Acquired t, Staggered (index * 100), Posted ?pl, BackedOff b] @ es)"
          by simp_all
        then show ?thesis by blast
      qed
    qed
  qed
qed

lemma retry2_run:
  "0 < index \<Longrightarrow>
     \<exists>es. trace2 (snd (translateWithRetry2_from svc text' tag index maxRetries attempt w)) = trace2 w @ es \<and>
       staggerRounds (index * 50) es \<and>
       filter isStaggered es =
         replicate (attemptsMade_from svc (makePayload text' tag) maxRetries attempt) (Staggered (index * 50)) \<and>
       filter isPosted es =
         replicate (attemptsMade_from svc (makePayload text' tag) maxRetries attempt)
           (Posted (makePayload text' tag))"
proof (induction svc text' tag index maxRetries attempt w rule: translateWithRetry2_from.induct)
  case (1 svc text' tag index maxRetries attempt w)
  let ?pl = "makePayload text' tag"
  show ?case
  proof (cases "attempt \<le> maxRetries")
    case False
    then have "translateWithRetry2_from svc text' tag index maxRetries attempt w = (Inr JUndefined, w)"
      by (subst translateWithRetry2_from.simps) simp
    moreover from False have "attemptsMade_from svc ?pl maxRetries attempt = 0"
      by (subst attemptsMade_from.simps) simp
    ultimately show ?thesis by simp
  next
    case le: True
    define w1 where "w1 = await_wait2 w"
    have "\<exists>t. trace2 w1 = trace2 w @ [Acquired t]"
      by (cases "RateLimiter2_wait (limiter2 w) (clock2 w)") (simp add: w1_def await_wait2_def)
    then obtain t where t: "trace2 w1 = trace2 w @ [Acquired t]" by blast
    define w2 where "w2 = sleep2 Staggered (index * 50) w1"
    define w3 where "w3 = post2 ?pl (svc attempt ?pl) w2"
    have t3: "trace2 w3 = trace2 w @ [Acquired t, Staggered (index * 50), Posted ?pl]"
      by (simp add: w3_def w2_def post2_def sleep2_def t)
    show ?thesis
    proof (cases "attemptOutcome (reply (svc attempt ?pl))")
      case (Inr v)
      with "1.prems" le have "translateWithRetry2_from svc text' tag index maxRetries attempt w = (Inr v, w3)"
        by (subst translateWithRetry2_from.simps) (simp add: Let_def w3_def w2_def w1_def)
      moreover from Inr le have "attemptsMade_from svc ?pl maxRetries attempt = 1"
        by (subst attemptsMade_from.simps) simp
      ultimately show ?thesis using t3 by simp
    next
      case (Inl e)
      show ?thesis
      proof (cases "attempt = maxRetries")
        case True
        with "1.prems" le Inl
        have "translateWithRetry2_from svc text' tag index maxRetries attempt w = (Inl e, w3)"
          by (subst translateWithRetry2_from.simps) (simp add: Let_def w3_def w2_def w1_def)
        moreover from Inl le True have "attemptsMade_from svc ?pl maxRetries attempt = 1"
          by (subst attemptsMade_from.simps) simp
        ultimately show ?thesis using t3 by simp
      next
        case False
        define b where "b = (2::int) ^ attempt * 1000"
        define w4 where "w4 = sleep2 BackedOff b w3"
        from "1.prems" le Inl False have run:
          "translateWithRetry2_from svc text' tag index maxRetries attempt w =
             translateWithRetry2_from svc text' tag index maxRetries (Suc attempt) w4"
          by (subst translateWithRetry2_from.simps)
            (simp add: Let_def w4_def b_def w3_def w2_def w1_def)
        from le Inl False have n: "attemptsMade_from svc ?pl maxRetries attempt =
            Suc (attemptsMade_from svc ?pl maxRetries (Suc attempt))"
          by (subst attemptsMade_from.simps) simp
        let ?n = "attemptsMade_from svc ?pl maxRetries (Suc attempt)"
        have "\<exists>es. trace2 (snd (translateWithRetry2_from svc text' tag index maxRetries (Suc attempt) w4)) =
                 trace2 w4 @ es \<and> staggerRounds (index * 50) es \<and>
               filter isStaggered es = replicate ?n (Staggered (index * 50)) \<and>
               filter isPosted es = replicate ?n (Posted ?pl)"
          using "1.IH"[OF le refl refl refl refl refl Inl False "1.prems"(1)] "1.prems"(1)
          by (simp add: w4_def b_def w3_def w2_def w1_def)
        then obtain es where es:
          "trace2 (snd (translateWithRetry2_from svc text' tag index maxRetries (Suc attempt) w4)) = trace2 w4 @ es"
          "staggerRounds (index * 50) es"
          "filter isStaggered es = replicate ?n (Staggered (index * 50))"
          "filter isPosted es = replicate ?n (Posted ?pl)" by blast
        have t4: "trace2 w4 = trace2 w @ [Acquired t, Staggered (index * 50), Posted ?pl, BackedOff b]"
          by (simp add: w4_def sleep2_def t3)
        let ?es = "[Acquired t, Staggered (index * 50), Posted ?pl, BackedOff b] @ es"
        have "trace2 (snd (translateWithRetry2_from svc text' tag index maxRetries attempt w)) = trace2 w @ ?es"
          unfolding run es(1) t4 by simp
        moreover have "staggerRounds (index * 50) ?es" using es(2) by simp
        moreover have "filter isStaggered ?es = replicate (Suc ?n) (Staggered (index * 50))"
          using es(3) by simp
        moreover have "filter isPosted ?es = replicate (Suc ?n) (Posted ?pl)"
          using es(4) by simp
        ultimately show ?thesis unfolding n by blast
      qed
    qed
  qed
qed

lemma attemptsMade_retry:
  assumes "1 < maxRetries" "isl (attemptOutcome (reply (svc 1 pl)))"
  shows "2 \<le> attemptsMade_from svc pl maxRetries 1"
proof -
  from assms obtain e where e: "attemptOutcome (reply (svc 1 pl)) = Inl e"
    by (cases "attemptOutcome (reply (svc 1 pl))") auto
  have a: "attemptsMade_from svc pl maxRetries 1 = Suc (attemptsMade_from svc pl maxRetries (Suc 1))"
    using assms(1) e by (subst attemptsMade_from.simps) simp
  have "1 \<le> attemptsMade_from svc pl maxRetries (Suc 1)"
    using assms(1) by (subst attemptsMade_from.simps) (simp split: sum.splits)
  with a show ?thesis by simp
qed

lemma attemptsMade_one:
  assumes "0 < maxRetries"
  shows "1 \<le> attemptsMade_from svc pl maxRetries 1"
    and "(attemptsMade_from svc pl maxRetries 1 = 1) =
         (maxRetries = 1 \<or> \<not> isl (attemptOutcome (reply (svc 1 pl))))"
proof -
  let ?n = "attemptsMade_from svc pl maxRetries 1"
  have le: "1 \<le> maxRetries" using assms by simp
  have "1 \<le> ?n \<and> ((?n = 1) = (maxRetries = 1 \<or> \<not> isl (attemptOutcome (reply (svc 1 pl)))))"
  proof (cases "attemptOutcome (reply (svc 1 pl))")
    case (Inr v)
    with le have "?n = 1" by (subst attemptsMade_from.simps) simp
    with Inr show ?thesis by simp
  next
    case (Inl e)
    show ?thesis
    proof (cases "maxRetries = 1")
      case True
      with Inl have "?n = 1" by (subst attemptsMade_from.simps) simp
      with True show ?thesis by simp
    next
      case False
      with le have m: "1 < maxRetries" by simp
      from Inl have "isl (attemptOutcome (reply (svc 1 pl)))" by simp
      from attemptsMade_retry[where svc = svc and pl = pl, OF m this] have "2 \<le> ?n" .
      with False Inl show ?thesis by simp
    qed
  qed
  then show "1 \<le> ?n"
    and "(?n = 1) = (maxRetries = 1 \<or> \<not> isl (attemptOutcome (reply (svc 1 pl))))" by simp_all
qed

section \<open>The claims\<close>

text \<open>
  C1, as amended. With a service that echoes every text and a limiter that can admit,
  and when no extracted fragment holds one of the replacement patterns \<^verbatim>\<open>$$\<close>, \<^verbatim>\<open>$&\<close>,
  \<^verbatim>\<open>$`\<close>, \<^verbatim>\<open>$'\<close>, the run leaves the parsed tree as it was and returns the input string
  itself when nothing is extracted, and otherwise the serialization \<^verbatim>\<open>$.html()\<close> of the
  unchanged tree: the input again exactly when the library's parser and serializer
  reproduce it.
\<close>

theorem C1_echo_returns_serialized_unchanged_tree:
  assumes "0 < maxRequests (limiter w)"
    and "\<forall>i k pl. reply (svcs i k pl) = Response (JStr (p_text pl))"
    and "\<forall>f\<in>set (collectTextNodes (load h)). \<not> hasReplacementPattern (trimmedText f)"
  shows "\<exists>w'. translateHtmlStructureOptimized load html svcs h w =
           Some (if collectTextNodes (load h) = [] then h else html (load h), w') \<and>
         document w' = load h"
proof (cases "collectTextNodes (load h) = []")
  case True
  then show ?thesis
    by (simp add: translateHtmlStructureOptimized_def Let_def)
next
  case False
  define nodes where "nodes = sortByPriority (collectTextNodes (load h))"
  from assms(1) have "ready w" by (simp add: ready_def)
  from translate_run[where load = load and h = h and html = html and svcs = svcs, OF this False]
  obtain w' where run:
    "translateHtmlStructureOptimized load html svcs h w = Some (html (document w'), w')"
    "document w' = foldl (applyAt svcs nodes) (load h) [0..<length nodes]"
    by (auto simp: nodes_def)
  have "applyAt svcs nodes (load h) k = load h" if "k \<in> set [0..<length nodes]" for k
  proof -
    from that have "nodes ! k \<in> set (collectTextNodes (load h))"
      using sorted_set[of "nodes ! k" "collectTextNodes (load h)"] by (simp add: nodes_def)
    from collect_facts[OF this] assms(3) this
    have "fragOK (nodes ! k)" "getData (node (nodes ! k)) (load h) = Some (originalText (nodes ! k))"
      "\<not> hasReplacementPattern (trimmedText (nodes ! k))"
      by (auto simp: fragAt_def)
    moreover have "reply (svcs k 1 (itemPayload (nodes ! k))) = Response (JStr (trimmedText (nodes ! k)))"
      using assms(2) by (simp add: itemPayload_def makePayload_def)
    ultimately show ?thesis
      unfolding applyAt_def by (intro echo_keeps_node)
  qed
  then have "foldl (applyAt svcs nodes) (load h) [0..<length nodes] = load h"
    by (intro foldl_unchanged) blast
  with run False show ?thesis by simp
qed

theorem C1_witness:
  "0 < maxRequests (limiter translationWorld) \<and>
   list_all (\<lambda>f. \<not> hasReplacementPattern (trimmedText f)) (collectTextNodes sampleDoc) \<and>
   (\<exists>w'. translateHtmlStructureOptimized (\<lambda>_. sampleDoc) plainHtml (\<lambda>i. echoService)
             (plainHtml sampleDoc) translationWorld =
           Some (plainHtml sampleDoc, w') \<and>
         document w' = sampleDoc)"
proof -
  have p: "\<forall>f\<in>set (collectTextNodes ((\<lambda>_. sampleDoc) (plainHtml sampleDoc))).
            \<not> hasReplacementPattern (trimmedText f)"
    using sampleDoc_plain by (simp add: list_all_iff)
  from C1_echo_returns_serialized_unchanged_tree[where load = "\<lambda>_. sampleDoc"
      and h = "plainHtml sampleDoc" and html = plainHtml and svcs = "\<lambda>i. echoService",
      OF translationWorld_ready echoService_echoes p]
  show ?thesis using translationWorld_ready sampleDoc_plain by simp
qed

text \<open>
  C1 as stated fails. The text \<^verbatim>\<open>a$$b\<close> echoed back is written as \<^verbatim>\<open>a$b\<close>; and an input
  whose \<^verbatim>\<open>p\<close> element is not closed comes back from the serializer with the closing tag
  (for a parser that reads it as \<open>helloDoc\<close>).
\<close>

theorem C1_counterexample:
  "plainHtml dollarDoc = js ''<html><head></head><body><p>a$$b</p></body></html>'' \<and>
   map_option fst
     (translateHtmlStructureOptimized (\<lambda>_. dollarDoc) plainHtml (\<lambda>i. echoService)
        (plainHtml dollarDoc) translationWorld) =
     Some (js ''<html><head></head><body><p>a$b</p></body></html>'') \<and>
   map_option fst
     (translateHtmlStructureOptimized (\<lambda>_. helloDoc) plainHtml (\<lambda>i. echoService)
        (js ''<html><head></head><body><p>Hello world</body></html>'') translationWorld) =
     Some (js ''<html><head></head><body><p>Hello world</p></body></html>'')"
  by (simp add: dollarDoc_def helloDoc_def echoService_def pipeline_defs run_defs extraction_defs)

text \<open>
  C2. Let \<open>nodes\<close> be the extracted fragments in dispatch order and \<open>svcs i\<close> the service
  as item \<open>i\<close> meets it. If every one of the \<open>defaultMaxRetries\<close> attempts for item \<open>j\<close>
  fails, the run still returns the serialized document, the node of item \<open>j\<close> holds its
  original text, the node of every item \<open>i\<close> holds the text that item's own replies
  determine (\<open>textAfter\<close> of \<open>itemOutcome (svcs i)\<close>), and no other text node changes.
\<close>

theorem C2_failed_fragment_keeps_its_text:
  assumes "0 < maxRequests (limiter w)"
    and "nodes = sortByPriority (collectTextNodes (load h))"
    and "j < length nodes"
    and "\<forall>k\<in>{1..defaultMaxRetries}.
           isl (attemptOutcome (reply (svcs j k (itemPayload (nodes ! j)))))"
  shows "\<exists>w'. translateHtmlStructureOptimized load html svcs h w = Some (html (document w'), w') \<and>
     getData (node (nodes ! j)) (document w') = Some (originalText (nodes ! j)) \<and>
     (\<forall>i<length nodes. getData (node (nodes ! i)) (document w') =
        Some (textAfter (nodes ! i) (itemOutcome (svcs i) (nodes ! i)))) \<and>
     (\<forall>q. q \<notin> node ` set nodes \<longrightarrow> getData q (document w') = getData q (load h))"
proof -
  from assms(1) have r: "ready w" by (simp add: ready_def)
  have ne: "collectTextNodes (load h) \<noteq> []"
    using assms(2,3) sorted_nodes(2)[of "collectTextNodes (load h)"] by auto
  from translate_run[where load = load and h = h and html = html and svcs = svcs, OF r ne]
  obtain w' where run:
    "translateHtmlStructureOptimized load html svcs h w = Some (html (document w'), w')"
    "document w' = foldl (applyAt svcs nodes) (load h) [0..<length nodes]"
    by (auto simp: assms(2))
  have "textAfter (nodes ! j) (itemOutcome (svcs j) (nodes ! j)) = originalText (nodes ! j)"
    using itemOutcome_all_fail[where svc = "svcs j" and f = "nodes ! j", OF assms(4)]
    by (rule textAfter_failed)
  with final_texts(1)[OF assms(2) assms(3), of svcs]
  have a: "getData (node (nodes ! j)) (document w') = Some (originalText (nodes ! j))"
    by (simp add: run(2))
  have b: "\<forall>i<length nodes. getData (node (nodes ! i)) (document w') =
        Some (textAfter (nodes ! i) (itemOutcome (svcs i) (nodes ! i)))"
    using final_texts(1)[OF assms(2), of _ svcs] by (simp add: run(2))
  have s: "set nodes = set (collectTextNodes (load h))" unfolding assms(2) by (rule sorted_nodes(1))
  have c: "\<forall>q. q \<notin> node ` set nodes \<longrightarrow> getData q (document w') = getData q (load h)"
    using final_texts(2)[OF assms(2), of _ svcs] by (simp add: run(2) s)
  from run(1) a b c show ?thesis by blast
qed

theorem C2_witness:
  "0 < maxRequests (limiter translationWorld) \<and>
   1 < length (sortByPriority (collectTextNodes sampleDoc)) \<and>
   list_all (\<lambda>k. isl (attemptOutcome (reply (downForItem1 1 k
       (itemPayload (sortByPriority (collectTextNodes sampleDoc) ! 1)))))) [1, 2, 3, 4, 5] \<and>
   (\<exists>w'. translateHtmlStructureOptimized (\<lambda>_. sampleDoc) plainHtml downForItem1
            (plainHtml sampleDoc) translationWorld = Some (plainHtml (document w'), w') \<and>
      getData [0, 1, 0, 1, 0] (document w') = Some (js ''now'') \<and>
      getData [0, 1, 1, 0] (document w') = Some (js ''pa:Title'') \<and>
      getData [0, 1, 0, 0] (document w') = Some (js '' pa:Hello world ''))"
proof -
  have l: "1 < length (sortByPriority (collectTextNodes ((\<lambda>_. sampleDoc) (plainHtml sampleDoc))))"
    by (simp add: sampleDoc_sorted)
  from C2_failed_fragment_keeps_its_text[where load = "\<lambda>_. sampleDoc" and h = "plainHtml sampleDoc"
      and html = plainHtml and svcs = downForItem1 and w = translationWorld and j = 1,
      OF translationWorld_ready refl l downForItem1_fails]
  obtain w' where w':
    "translateHtmlStructureOptimized (\<lambda>_. sampleDoc) plainHtml downForItem1
        (plainHtml sampleDoc) translationWorld = Some (plainHtml (document w'), w')"
    "getData (node (sortByPriority (collectTextNodes sampleDoc) ! 1)) (document w') =
       Some (originalText (sortByPriority (collectTextNodes sampleDoc) ! 1))"
    "\<forall>i<length (sortByPriority (collectTextNodes sampleDoc)).
       getData (node (sortByPriority (collectTextNodes sampleDoc) ! i)) (document w') =
         Some (textAfter (sortByPriority (collectTextNodes sampleDoc) ! i)
           (itemOutcome (downForItem1 i) (sortByPriority (collectTextNodes sampleDoc) ! i)))"
    by auto
  have a: "getData [0, 1, 0, 1, 0] (document w') = Some (js ''now'')"
    using w'(2) by (simp add: sampleDoc_sorted)
  have b: "getData [0, 1, 1, 0] (document w') = Some (js ''pa:Title'')"
    using w'(3)[rule_format, of 0] downForItem1_outcomes(1) by (simp add: sampleDoc_sorted)
  have c: "getData [0, 1, 0, 0] (document w') = Some (js '' pa:Hello world '')"
    using w'(3)[rule_format, of 2] downForItem1_outcomes(2) by (simp add: sampleDoc_sorted)
  have f: "list_all (\<lambda>k. isl (attemptOutcome (reply (downForItem1 1 k
       (itemPayload (sortByPriority (collectTextNodes sampleDoc) ! 1)))))) [1, 2, 3, 4, 5]"
    by (simp add: downForItem1_def)
  from translationWorld_ready l f w'(1) a b c show ?thesis by auto
qed

text \<open>
  C3 (the code departs from the claim). The claim: after every acquire at most
  \<open>maxRequests\<close> recorded timestamps fall within any trailing \<open>timeWindow\<close>. The second
  variant's \<^verbatim>\<open>wait()\<close> pushes the time it read before sleeping: with \<^verbatim>\<open>RateLimiter(3, 1500)\<close>
  and four awaited calls at time 0, the fourth returns at 1600 and leaves four
  timestamps 0 in the window. They are purged at the next call, so the fifth, sixth and
  seventh call return at 1600 as well: four acquisitions at one instant. The first
  variant reads the clock again before it admits (\<open>first_variant_five_callers\<close>).
\<close>

theorem C3_second_variant_records_stale_time:
  "RateLimiter2_wait (fst (RateLimiter2_wait (fst (RateLimiter2_wait (fst (RateLimiter2_wait
       (RateLimiter2_fields 3 1500) 0)) 0)) 0)) 0 =
     (\<lparr>maxRequests2 = 3, timeWindow2 = 1500, requests2 = [0, 0, 0, 0]\<rparr>, 1600) \<and>
   RateLimiter2_wait (fst (RateLimiter2_wait (fst (RateLimiter2_wait
       \<lparr>maxRequests2 = 3, timeWindow2 = 1500, requests2 = [0, 0, 0, 0]\<rparr> 1600)) 1600)) 1600 =
     (\<lparr>maxRequests2 = 3, timeWindow2 = 1500, requests2 = [1600, 1600, 1600]\<rparr>, 1600)"
  by (simp add: RateLimiter2_wait_def RateLimiter2_fields_def timerDelay_def Let_def)

text \<open>
  C4. A text node whose container is \<^verbatim>\<open>script\<close>, \<^verbatim>\<open>style\<close>, \<^verbatim>\<open>meta\<close> or \<^verbatim>\<open>link\<close>, or whose
  trimmed text has length at most 1 (empty included) or consists of digits with \<^verbatim>\<open>.\<close> and
  \<^verbatim>\<open>,\<close>, is not extracted. Every run returns; what it returns is the input itself when
  nothing was extracted and otherwise the serialization of the tree the run ends with,
  and in that tree the node has the text it had. Every payload posted during the run
  belongs to an extracted fragment, and when the node is excluded for its text, no
  payload carries that text.
\<close>

theorem C4_excluded_nodes_are_never_sent_nor_changed:
  assumes "getData q (load h) = Some d"
    and "(\<exists>t\<in>set nonTranslatable. getTagName (butlast q) (load h) = Some t) \<or>
         length (trim d) \<le> 1 \<or> digitsWithSeparators (trim d)"
    and "0 < maxRequests (limiter w)"
  shows "q \<notin> node ` set (collectTextNodes (load h)) \<and>
     (\<exists>w'. translateHtmlStructureOptimized load html svcs h w =
              Some (if collectTextNodes (load h) = [] then h else html (document w'), w') \<and>
        getData q (document w') = Some d \<and>
        (\<forall>pl. Posted pl \<in> set (drop (length (trace w)) (trace w')) \<longrightarrow>
           (\<exists>f\<in>set (collectTextNodes (load h)). pl = itemPayload f) \<and>
           (length (trim d) \<le> 1 \<or> digitsWithSeparators (trim d) \<longrightarrow> p_text pl \<noteq> trim d)))"
proof
  show nq: "q \<notin> node ` set (collectTextNodes (load h))"
    using assms(1,2) by (rule excluded_not_collected)
  show "\<exists>w'. translateHtmlStructureOptimized load html svcs h w =
              Some (if collectTextNodes (load h) = [] then h else html (document w'), w') \<and>
        getData q (document w') = Some d \<and>
        (\<forall>pl. Posted pl \<in> set (drop (length (trace w)) (trace w')) \<longrightarrow>
           (\<exists>f\<in>set (collectTextNodes (load h)). pl = itemPayload f) \<and>
           (length (trim d) \<le> 1 \<or> digitsWithSeparators (trim d) \<longrightarrow> p_text pl \<noteq> trim d))"
  proof (cases "collectTextNodes (load h) = []")
    case True
    then show ?thesis
      using assms(1) by (simp add: translateHtmlStructureOptimized_def Let_def)
  next
    case False
    define nodes where "nodes = sortByPriority (collectTextNodes (load h))"
    from assms(3) have "ready w" by (simp add: ready_def)
    from translate_run[where load = load and h = h and html = html and svcs = svcs, OF this False]
    obtain w' es where run:
      "translateHtmlStructureOptimized load html svcs h w = Some (html (document w'), w')"
      "document w' = foldl (applyAt svcs nodes) (load h) [0..<length nodes]"
      "trace w' = trace w @ es"
      "filter (\<lambda>e. isProcessingItem e \<or> isPosted e) es = dispatchLog svcs nodes 0"
      by (auto simp: nodes_def)
    have es: "drop (length (trace w)) (trace w') = es" using run(3) by simp
    have g: "getData q (document w') = Some d"
      using final_texts(2)[OF nodes_def nq, of svcs] assms(1) by (simp add: run(2))
    have s: "set nodes = set (collectTextNodes (load h))"
      unfolding nodes_def by (rule sorted_nodes(1))
    have p: "(\<exists>f\<in>set (collectTextNodes (load h)). pl = itemPayload f) \<and>
           (length (trim d) \<le> 1 \<or> digitsWithSeparators (trim d) \<longrightarrow> p_text pl \<noteq> trim d)"
      if "Posted pl \<in> set es" for pl
    proof -
      from posted_texts[OF run(4) that] s obtain f where
        f: "f \<in> set (collectTextNodes (load h))" "pl = itemPayload f" by auto
      from collect_facts[OF f(1)] have "1 < length (trimmedText f)" "\<not> isOnlyNumbers (trimmedText f)"
        by (auto simp: fragOK_def)
      moreover have "p_text pl = trimmedText f" using f(2) by (simp add: itemPayload_def makePayload_def)
      ultimately have "length (trim d) \<le> 1 \<or> digitsWithSeparators (trim d) \<longrightarrow> p_text pl \<noteq> trim d"
        using digits_only[of "trim d"] by auto
      with f show ?thesis by blast
    qed
    show ?thesis
      using run(1) g p False by (intro exI[of _ w']) (simp add: es)
  qed
qed

theorem C4_witness:
  "getData [0, 1, 2, 0] sampleDoc = Some (js ''3,14'') \<and>
   digitsWithSeparators (trim (js ''3,14'')) \<and>
   0 < maxRequests (limiter translationWorld) \<and>
   [0, 1, 2, 0] \<notin> node ` set (collectTextNodes sampleDoc) \<and>
   (\<exists>w'. translateHtmlStructureOptimized (\<lambda>_. sampleDoc) plainHtml downForItem1
              (plainHtml sampleDoc) translationWorld = Some (plainHtml (document w'), w') \<and>
      getData [0, 1, 2, 0] (document w') = Some (js ''3,14'') \<and>
      (\<forall>pl. Posted pl \<in> set (drop (length (trace translationWorld)) (trace w')) \<longrightarrow>
         (\<exists>f\<in>set (collectTextNodes sampleDoc). pl = itemPayload f) \<and>
         (length (trim (js ''3,14'')) \<le> 1 \<or> digitsWithSeparators (trim (js ''3,14''))
            \<longrightarrow> p_text pl \<noteq> trim (js ''3,14''))))"
proof -
  have e: "(\<exists>t\<in>set nonTranslatable.
              getTagName (butlast [0, 1, 2, 0]) ((\<lambda>_. sampleDoc) (plainHtml sampleDoc)) = Some t) \<or>
           length (trim (js ''3,14'')) \<le> 1 \<or> digitsWithSeparators (trim (js ''3,14''))"
    using sampleDoc_number(2) by blast
  have ne: "collectTextNodes sampleDoc \<noteq> []"
    using sampleDoc_nodes(1) by auto
  from C4_excluded_nodes_are_never_sent_nor_changed[where load = "\<lambda>_. sampleDoc"
      and h = "plainHtml sampleDoc" and html = plainHtml and svcs = downForItem1
      and w = translationWorld and q = "[0, 1, 2, 0]" and d = "js ''3,14''",
      OF sampleDoc_number(1) e translationWorld_ready]
  show ?thesis using sampleDoc_number translationWorld_ready ne by simp
qed

text \<open>
  C5, as amended. For every configuration, a non-positive one included, constructing
  the rate limiter succeeds: both constructors store \<open>maxRequests\<close> and \<open>timeWindow\<close>
  unchecked and nothing is rejected at construction. A non-positive \<open>maxRequests\<close>
  shows at call time: the first variant's \<^verbatim>\<open>wait()\<close> is then never resolved.
\<close>

theorem C5_constructor_accepts_any_configuration:
  "RateLimiter_new m t = Inr (RateLimiter_fields m t) \<and>
   RateLimiter2_new m t = Inr (RateLimiter2_fields m t) \<and>
   (m \<le> 0 \<longrightarrow> RateLimiter_wait (w\<lparr>limiter := RateLimiter_fields m t\<rparr>) = None)"
  by (simp add: RateLimiter_new_def RateLimiter2_new_def RateLimiter_wait_eq Let_def
      processQueue_starved RateLimiter_fields_def)

theorem C5_witness:
  "(0::int) \<le> 0 \<and> RateLimiter_new 0 1500 = Inr (RateLimiter_fields 0 1500) \<and>
   RateLimiter2_new 0 1500 = Inr (RateLimiter2_fields 0 1500) \<and>
   RateLimiter_wait (translationWorld\<lparr>limiter := RateLimiter_fields 0 1500\<rparr>) = None"
  using C5_constructor_accepts_any_configuration[of 0 1500 translationWorld] by simp

text \<open>
  C5 as stated fails: constructing with \<open>maxRequests = 0\<close>, \<open>timeWindow = -5\<close> (first
  variant) or \<open>maxRequests = -1\<close>, \<open>timeWindow = 0\<close> (second variant) returns the object.
\<close>

theorem C5_counterexample:
  "RateLimiter_new 0 (- 5) =
     Inr \<lparr>maxRequests = 0, timeWindow = - 5, requests = [], queue = [], processing = False\<rparr> \<and>
   RateLimiter2_new (- 1) 0 = Inr \<lparr>maxRequests2 = - 1, timeWindow2 = 0, requests2 = []\<rparr>"
  by (simp add: RateLimiter_new_def RateLimiter_fields_def RateLimiter2_new_def
      RateLimiter2_fields_def)






text \<open>
  C8, as amended. For \<open>index > 0\<close>, \<^verbatim>\<open>translateWithRetry\<close> sleeps \<open>index \<times> staggerUnit\<close> (100 ms
  in the first variant, 50 ms in the second) before every attempt, the first and each
  retry: every attempt is an acquire of the rate limiter, directly after it the stagger
  sleep, directly after that the post. There are as many stagger sleeps as attempts;
  with \<open>maxRetries \<ge> 1\<close> that number is at least one, and it is one exactly when the first
  attempt succeeds or \<open>maxRetries = 1\<close>.
\<close>

theorem C8_stagger_before_every_attempt:
  assumes "0 < maxRequests (limiter w)" "0 < index"
  shows "(\<exists>r w'. translateWithRetry svc text' tag index maxRetries w = Some (r, w') \<and>
      staggerRounds (index * 100) (drop (length (trace w)) (trace w')) \<and>
      staggeredBeforeEachPost (index * 100) (drop (length (trace w)) (trace w')) \<and>
      filter isStaggered (drop (length (trace w)) (trace w')) =
        replicate (length (filter isPosted (drop (length (trace w)) (trace w'))))
          (Staggered (index * 100)) \<and>
      length (filter isPosted (drop (length (trace w)) (trace w'))) =
        attemptsMade_from svc (makePayload text' tag) maxRetries 1) \<and>
     (\<exists>r v'. translateWithRetry2 svc text' tag index maxRetries v = (r, v') \<and>
      staggerRounds (index * 50) (drop (length (trace2 v)) (trace2 v')) \<and>
      filter isStaggered (drop (length (trace2 v)) (trace2 v')) =
        replicate (length (filter isPosted (drop (length (trace2 v)) (trace2 v'))))
          (Staggered (index * 50)) \<and>
      length (filter isPosted (drop (length (trace2 v)) (trace2 v'))) =
        attemptsMade_from svc (makePayload text' tag) maxRetries 1) \<and>
     (0 < maxRetries \<longrightarrow>
        1 \<le> attemptsMade_from svc (makePayload text' tag) maxRetries 1 \<and>
        (attemptsMade_from svc (makePayload text' tag) maxRetries 1 = 1) =
          (maxRetries = 1 \<or> \<not> isl (attemptOutcome (reply (svc 1 (makePayload text' tag))))))"
proof (intro conjI)
  let ?pl = "makePayload text' tag"
  let ?n = "attemptsMade_from svc ?pl maxRetries 1"
  show "\<exists>r w'. translateWithRetry svc text' tag index maxRetries w = Some (r, w') \<and>
      staggerRounds (index * 100) (drop (length (trace w)) (trace w')) \<and>
      staggeredBeforeEachPost (index * 100) (drop (length (trace w)) (trace w')) \<and>
      filter isStaggered (drop (length (trace w)) (trace w')) =
        replicate (length (filter isPosted (drop (length (trace w)) (trace w'))))
          (Staggered (index * 100)) \<and>
      length (filter isPosted (drop (length (trace w)) (trace w'))) = ?n"
  proof -
    from assms(1) have "ready w" by (simp add: ready_def)
    from retry_run[OF this, of svc text' tag index maxRetries 1] obtain r w' es where run:
      "translateWithRetry svc text' tag index maxRetries w = Some (r, w')"
      "trace w' = trace w @ es" "retryTraceOK index ?pl ?n es"
      by (auto simp: translateWithRetry_def)
    have es: "drop (length (trace w)) (trace w') = es" using run(2) by simp
    from retry_rounds[OF assms(2) run(1)[unfolded translateWithRetry_def]] run(2)
    have r: "staggerRounds (index * 100) es" by simp
    have a: "staggeredBeforeEachPost (index * 100) es"
      using run(3) assms(2) by (simp add: retryTraceOK_def)
    have p: "length (filter isPosted es) = ?n" using run(3) by (simp add: retryTraceOK_def)
    have "concat (replicate n [x]) = replicate n x" for n and x :: event
      by (induction n) simp_all
    then have s: "filter isStaggered es = replicate ?n (Staggered (index * 100))"
      using run(3) assms(2) by (simp add: retryTraceOK_def staggerEvents_def)
    show ?thesis
      unfolding es using run(1) r a s p by (intro exI[of _ r] exI[of _ w']) (simp add: es)
  qed
  show "\<exists>r v'. translateWithRetry2 svc text' tag index maxRetries v = (r, v') \<and>
      staggerRounds (index * 50) (drop (length (trace2 v)) (trace2 v')) \<and>
      filter isStaggered (drop (length (trace2 v)) (trace2 v')) =
        replicate (length (filter isPosted (drop (length (trace2 v)) (trace2 v'))))
          (Staggered (index * 50)) \<and>
      length (filter isPosted (drop (length (trace2 v)) (trace2 v'))) = ?n"
  proof -
    obtain r v' where run: "translateWithRetry2 svc text' tag index maxRetries v = (r, v')"
      by (cases "translateWithRetry2 svc text' tag index maxRetries v")
    from retry2_run[OF assms(2), of svc text' tag maxRetries 1 v] run obtain es where es:
      "trace2 v' = trace2 v @ es" "staggerRounds (index * 50) es"
      "filter isStaggered es = replicate ?n (Staggered (index * 50))"
      "filter isPosted es = replicate ?n (Posted ?pl)"
      by (auto simp: translateWithRetry2_def)
    have d: "drop (length (trace2 v)) (trace2 v') = es" using es(1) by simp
    show ?thesis
      using run es(2,3,4) by (intro exI[of _ r] exI[of _ v']) (simp add: d)
  qed
  show "0 < maxRetries \<longrightarrow>
        1 \<le> ?n \<and> (?n = 1) = (maxRetries = 1 \<or> \<not> isl (attemptOutcome (reply (svc 1 ?pl))))"
  proof (intro impI conjI)
    assume m: "0 < maxRetries"
    show "1 \<le> ?n" by (rule attemptsMade_one(1)[OF m])
    show "(?n = 1) = (maxRetries = 1 \<or> \<not> isl (attemptOutcome (reply (svc 1 ?pl))))"
      by (rule attemptsMade_one(2)[OF m])
  qed
qed

theorem C8_witness:
  "0 < maxRequests (limiter translationWorld) \<and> (0::int) < 2 \<and>
   (\<exists>r w'. translateWithRetry failsOnce (js ''now'') (js ''b'') 2 defaultMaxRetries
              translationWorld = Some (r, w') \<and>
     staggerRounds (2 * 100) (drop (length (trace translationWorld)) (trace w')) \<and>
     filter isStaggered (drop (length (trace translationWorld)) (trace w')) =
       [Staggered 200, Staggered 200] \<and>
     length (filter isPosted (drop (length (trace translationWorld)) (trace w'))) = 2) \<and>
   (\<exists>r v'. translateWithRetry2 failsOnce (js ''now'') (js ''b'') 2 defaultMaxRetries
              batchWorld = (r, v') \<and>
     staggerRounds (2 * 50) (drop (length (trace2 batchWorld)) (trace2 v')) \<and>
     filter isStaggered (drop (length (trace2 batchWorld)) (trace2 v')) =
       [Staggered 100, Staggered 100] \<and>
     length (filter isPosted (drop (length (trace2 batchWorld)) (trace2 v'))) = 2)"
proof -
  let ?es = "\<lambda>w'. drop (length (trace translationWorld)) (trace w')"
  let ?es2 = "\<lambda>v'. drop (length (trace2 batchWorld)) (trace2 v')"
  have i: "(0::int) < 2" by simp
  have n: "attemptsMade_from failsOnce (makePayload (js ''now'') (js ''b'')) defaultMaxRetries 1 = 2"
    by (simp add: attemptsMade_from.simps failsOnce_def defaultMaxRetries_def js_def)
  from C8_stagger_before_every_attempt[OF translationWorld_ready i, of failsOnce "js ''now''" "js ''b''"
      defaultMaxRetries batchWorld]
  obtain r w' r2 v' where
    a: "translateWithRetry failsOnce (js ''now'') (js ''b'') 2 defaultMaxRetries translationWorld =
          Some (r, w')"
       "staggerRounds (2 * 100) (?es w')"
       "filter isStaggered (?es w') = replicate (length (filter isPosted (?es w'))) (Staggered (2 * 100))"
       "length (filter isPosted (?es w')) = 2" and
    b: "translateWithRetry2 failsOnce (js ''now'') (js ''b'') 2 defaultMaxRetries batchWorld = (r2, v')"
       "staggerRounds (2 * 50) (?es2 v')"
       "filter isStaggered (?es2 v') = replicate (length (filter isPosted (?es2 v'))) (Staggered (2 * 50))"
       "length (filter isPosted (?es2 v')) = 2"
    unfolding n by blast
  have a3: "filter isStaggered (?es w') = [Staggered 200, Staggered 200]"
    unfolding a(3) a(4) by (simp add: numeral_2_eq_2)
  have b3: "filter isStaggered (?es2 v') = [Staggered 100, Staggered 100]"
    unfolding b(3) b(4) by (simp add: numeral_2_eq_2)
  show ?thesis
    using translationWorld_ready i a(1,2,4) a3 b(1,2,4) b3 by blast
qed

text \<open>
  C8 as stated fails: with \<open>index = 1\<close> and a first attempt that fails, the call sleeps
  the stagger twice, once before the first attempt and once before the retry: 100 ms
  each time in the first variant, 50 ms in the second.
\<close>

theorem C8_counterexample:
  "map_option (\<lambda>(r, w'). (r, trace w'))
     (translateWithRetry failsOnce (js ''now'') (js ''b'') 1 defaultMaxRetries translationWorld) =
   Some (Inr (JStr (js ''ok'')),
     [Acquired 0, Staggered 100, Posted (makePayload (js ''now'') (js ''b'')), BackedOff 2007,
      Acquired 2147, Staggered 100, Posted (makePayload (js ''now'') (js ''b''))]) \<and>
   map_prod id trace2
     (translateWithRetry2 failsOnce (js ''now'') (js ''b'') 1 defaultMaxRetries2 batchWorld) =
   (Inr (JStr (js ''ok'')),
     [Acquired 0, Staggered 50, Posted (makePayload (js ''now'') (js ''b'')), BackedOff 2000,
      Acquired 2090, Staggered 50, Posted (makePayload (js ''now'') (js ''b''))])"
  by (simp add: run_defs failsOnce_def translateWithRetry2_def translateWithRetry2_from.simps
      await_wait2_def RateLimiter2_wait_def sleep2_def post2_def batchWorld_def
      RateLimiter2_fields_def defaultMaxRetries2_def)

text \<open>
  C9 (the code departs from the claim). The claim: on success the node text is the
  original text with the first occurrence of the trimmed text replaced by the
  translated text. \<^verbatim>\<open>String.prototype.replace\<close> reads the translated text as a template:
  for the original text \<^verbatim>\<open>"  Total  "\<close> and the translation \<^verbatim>\<open>"US$$ 5"\<close> the node gets
  \<^verbatim>\<open>"  US$ 5  "\<close>.
\<close>

theorem C9_replacement_pattern_expanded:
  "writeTranslation
     \<lparr>node = [0], originalText = js ''  Total  '', trimmedText = js ''Total'', priority = 0,
      tagName = js ''p''\<rparr>
     (JStr (js ''US$$ 5'')) [Text (js ''  Total  '')] = Inr [Text (js ''  US$ 5  '')]"
  by (simp add: writeTranslation_def String_replace_def trim_def isWhiteSpace_def js_def)

text \<open>
  C10. When no text node of the parsed input qualifies for extraction,
  \<^verbatim>\<open>translateHtmlStructureOptimized\<close> returns the input string itself, whatever the
  serializer is (it is not called), in both variants.
\<close>

theorem C10_no_fragments_returns_input:
  "collectTextNodes (load htmlEnglish) = [] \<Longrightarrow>
     translateHtmlStructureOptimized load html svcs htmlEnglish w =
       Some (htmlEnglish, w\<lparr>document := load htmlEnglish, textNodes := []\<rparr>) \<and>
     translateHtmlStructureOptimized2 load html settled htmlEnglish = htmlEnglish"
  by (simp add: translateHtmlStructureOptimized_def translateHtmlStructureOptimized2_def Let_def)

theorem C10_witness:
  "collectTextNodes ((\<lambda>_. numbersDoc) (plainHtml numbersDoc)) = [] \<and>
   translateHtmlStructureOptimized (\<lambda>_. numbersDoc) plainHtml (\<lambda>i. echoService)
       (plainHtml numbersDoc) translationWorld =
     Some (plainHtml numbersDoc, translationWorld\<lparr>document := numbersDoc, textNodes := []\<rparr>) \<and>
   translateHtmlStructureOptimized2 (\<lambda>_. numbersDoc) plainHtml (\<lambda>i. Inr (JStr (js ''x'')))
       (plainHtml numbersDoc) = plainHtml numbersDoc"
proof -
  have h: "collectTextNodes ((\<lambda>_. numbersDoc) (plainHtml numbersDoc)) = []"
    by (simp add: numbersDoc_def extraction_defs)
  from C10_no_fragments_returns_input[OF h, where html = plainHtml and svcs = "\<lambda>i. echoService"
      and w = translationWorld and settled = "\<lambda>i. Inr (JStr (js ''x''))"] h
  show ?thesis by simp
qed

subsection \<open>Further properties\<close>

text \<open>
  X1. First variant, \<^verbatim>\<open>RateLimiter.wait\<close> (lines 43-79): with a positive limit and a
  positive window the call resolves, and at the moment it resolves the limiter holds at most
  \<^verbatim>\<open>maxRequests\<close> recorded times, each of them less than \<^verbatim>\<open>timeWindow\<close> milliseconds
  before the moment the caller was let through.
\<close>

theorem X1_first_variant_window_after_acquire:
  assumes "0 < maxRequests (limiter w)" "0 < timeWindow (limiter w)"
  shows "\<exists>w'. RateLimiter_wait w = Some w' \<and>
     int (length (requests (limiter w'))) \<le> maxRequests (limiter w) \<and>
     (\<forall>t\<in>set (requests (limiter w')). clock w' - t < timeWindow (limiter w))"
proof -
  let ?L = "(limiter w)\<lparr>queue := queue (limiter w) @ [length (queue (limiter w))], processing := True\<rparr>"
  let ?now = "max (clock w) (loopWakes w)"
  have "0 < maxRequests ?L" using assms(1) by simp
  from processQueue_total[OF this, of ?now "[]"] obtain L' fin res' where
    run: "processQueue ?L ?now [] = Some (L', fin, res')" by blast
  have "0 < timeWindow ?L" "queue ?L \<noteq> []" using assms(2) by simp_all
  with processQueue_window[OF run] have
    "res' \<noteq> []" "int (length (requests L')) \<le> maxRequests (limiter w)"
    "\<forall>t\<in>set (requests L'). snd (last res') - t < timeWindow (limiter w)"
    by simp_all
  then show ?thesis
    using run by (simp add: RateLimiter_wait_eq)
qed

theorem X1_witness:
  "0 < maxRequests (limiter translationWorld) \<and> 0 < timeWindow (limiter translationWorld) \<and>
   (\<exists>w'. RateLimiter_wait translationWorld = Some w' \<and>
     int (length (requests (limiter w'))) \<le> 3)"
proof -
  have t: "0 < timeWindow (limiter translationWorld)"
    by (simp add: translationWorld_def RateLimiter_fields_def)
  have m: "maxRequests (limiter translationWorld) = 3"
    by (simp add: translationWorld_def RateLimiter_fields_def)
  from X1_first_variant_window_after_acquire[OF translationWorld_ready t]
  obtain w' where "RateLimiter_wait translationWorld = Some w'"
    "int (length (requests (limiter w'))) \<le> maxRequests (limiter translationWorld)"
    by blast
  then have "\<exists>w'. RateLimiter_wait translationWorld = Some w' \<and>
     int (length (requests (limiter w'))) \<le> 3"
    unfolding m by blast
  with translationWorld_ready t show ?thesis by blast
qed

text \<open>
  X2. \<^verbatim>\<open>item.node.data = item.originalText.replace(item.trimmedText, translated)\<close>
  (line 178): for a fragment whose node still holds its original text, a translation that is
  not blank is written between the leading and the trailing whitespace of the original text;
  what is written is the replacement template expanded, which is the translation itself when
  it holds no replacement pattern.
\<close>

theorem X2_write_back_keeps_whitespace:
  assumes "trimmedText item = trim (originalText item)" "trimmedText item \<noteq> []"
    and "getData (node item) doc = Some (originalText item)"
    and "trim s \<noteq> []"
  shows "\<exists>doc'. writeTranslation item (JStr s) doc = Inr doc' \<and>
     getData (node item) doc' =
       Some (leadingSpace (originalText item) @
             getSubstitution (trimmedText item) (leadingSpace (originalText item))
               (trailingSpace (originalText item)) s @
             trailingSpace (originalText item)) \<and>
     (\<not> hasReplacementPattern s \<longrightarrow>
        getData (node item) doc' =
          Some (leadingSpace (originalText item) @ s @ trailingSpace (originalText item)))"
proof -
  define v where "v = String_replace (originalText item) (trimmedText item) s"
  have "trim [] = ([]::jsstring)" by (simp add: trim_def)
  with assms(4) have s: "s \<noteq> []" by auto
  have t: "trim (originalText item) \<noteq> []" using assms(1,2) by simp
  have w: "writeTranslation item (JStr s) doc = Inr (setData (node item) v doc)"
    using s assms(4) by (simp add: writeTranslation_def v_def)
  have g: "getData (node item) (setData (node item) v doc) = Some v"
    using assms(3) by (simp add: getData_setData)
  have v1: "v = leadingSpace (originalText item) @
             getSubstitution (trimmedText item) (leadingSpace (originalText item))
               (trailingSpace (originalText item)) s @
             trailingSpace (originalText item)"
    unfolding v_def assms(1) by (rule String_replace_trimmed[OF t])
  have v2: "\<not> hasReplacementPattern s \<longrightarrow>
      v = leadingSpace (originalText item) @ s @ trailingSpace (originalText item)"
    unfolding v_def assms(1) using String_replace_plain[OF t] by blast
  show ?thesis
  proof (intro exI conjI)
    show "writeTranslation item (JStr s) doc = Inr (setData (node item) v doc)" by (rule w)
    show "getData (node item) (setData (node item) v doc) =
       Some (leadingSpace (originalText item) @
             getSubstitution (trimmedText item) (leadingSpace (originalText item))
               (trailingSpace (originalText item)) s @
             trailingSpace (originalText item))"
      unfolding g using v1 by simp
    show "\<not> hasReplacementPattern s \<longrightarrow>
        getData (node item) (setData (node item) v doc) =
          Some (leadingSpace (originalText item) @ s @ trailingSpace (originalText item))"
      unfolding g using v2 by simp
  qed
qed

theorem X2_witness:
  "trim (js '' Hi '') = js ''Hi'' \<and>
   (\<exists>doc'. writeTranslation
       \<lparr>node = [0], originalText = js '' Hi '', trimmedText = js ''Hi'', priority = 1, tagName = js ''p''\<rparr>
       (JStr (js ''Salut'')) [Text (js '' Hi '')] = Inr doc' \<and>
      getData [0] doc' = Some (js '' Salut ''))"
proof -
  let ?item = "\<lparr>node = [0], originalText = js '' Hi '', trimmedText = js ''Hi'', priority = 1,
      tagName = js ''p''\<rparr>"
  have t: "trim (js '' Hi '') = js ''Hi''"
    by (simp add: trim_def js_def isWhiteSpace_def)
  have a1: "trimmedText ?item = trim (originalText ?item)" using t by simp
  have a2: "trimmedText ?item \<noteq> []" by (simp add: js_def)
  have a3: "getData (node ?item) [Text (js '' Hi '')] = Some (originalText ?item)" by simp
  have a4: "trim (js ''Salut'') \<noteq> []" by (simp add: trim_def js_def isWhiteSpace_def)
  have p: "\<not> hasReplacementPattern (js ''Salut'')"
    by (simp add: js_def)
  have l: "leadingSpace (js '' Hi '') = js '' ''" "trailingSpace (js '' Hi '') = js '' ''"
    by (simp_all add: leadingSpace_def trailingSpace_def js_def isWhiteSpace_def)
  from X2_write_back_keeps_whitespace[OF a1 a2 a3 a4] p
  obtain doc' where "writeTranslation ?item (JStr (js ''Salut'')) [Text (js '' Hi '')] = Inr doc'"
    "getData [0] doc' = Some (leadingSpace (js '' Hi '') @ js ''Salut'' @ trailingSpace (js '' Hi ''))"
    by auto
  then have "\<exists>doc'. writeTranslation ?item (JStr (js ''Salut'')) [Text (js '' Hi '')] = Inr doc' \<and>
      getData [0] doc' = Some (js '' Salut '')"
    unfolding l by (simp add: js_def)
  with t show ?thesis by blast
qed

end
